theory Spec2Isabelle
  imports Main
begin

section \<open>The hive simulation of \<^verbatim>\<open>src/main.cpp\<close>\<close>

text \<open>
  The program runs one thread per \<^verbatim>\<open>Bee\<close>, one for the \<^verbatim>\<open>Hive\<close>, one for
  \<^verbatim>\<open>Winnie\<close> and the controlling thread of \<^verbatim>\<open>main\<close>. The embedding is an
  interleaving semantics: the state is a record of the shared variables together with the
  control point of every thread, and one step executes one statement of one thread.
  A \<^verbatim>\<open>std::mutex\<close> is the identity of its owner, if any; locking a held mutex blocks.
  \<^verbatim>\<open>wait(lock, pred)\<close> is the loop \<^verbatim>\<open>while (!pred()) wait(lock)\<close> of the C++ standard:
  the predicate is evaluated with the mutex held, the plain \<^verbatim>\<open>wait\<close> releases the mutex
  and parks the thread in one step, and a notified thread takes the mutex again before it
  evaluates the predicate once more.

  Field names are those of the source without the trailing underscore, which is not
  a legal end of an identifier here; the three \<^verbatim>\<open>stop_signal_\<close> and the three
  \<^verbatim>\<open>this_thread_\<close> members are told apart by a prefix. A \<^verbatim>\<open>Bee*\<close> is the
  index of the bee in \<^verbatim>\<open>all_bees_\<close> (the vector never reallocates after
  \<^verbatim>\<open>reserve\<close>). Console output and the duration of a sleep are not modelled; a
  sample of a random distribution is a parameter of the step that draws it.
\<close>

datatype tid = MainT | HiveT | BeeT nat | WinnieT

datatype 'a outcome = Blocked | Undefined | Next 'a

subsection \<open>Control points\<close>

text \<open>Control points of \<^verbatim>\<open>Bee::Run\<close>, with the body of \<^verbatim>\<open>Hive::ReturnOne\<close> inlined.\<close>

datatype bee_pc =
    B_NotStarted
  | B_While            \<comment> \<open>\<^verbatim>\<open>while (!stop_signal_)\<close>\<close>
  | B_Lock             \<comment> \<open>\<^verbatim>\<open>unique_lock lock{bee_mutex_}\<close>\<close>
  | B_Pred             \<comment> \<open>predicate of the wait: \<^verbatim>\<open>!at_home_ || stop_signal_\<close>\<close>
  | B_Block            \<comment> \<open>\<^verbatim>\<open>condition_.wait(lock)\<close>: release and park\<close>
  | B_Parked
  | B_Woken            \<comment> \<open>notified: take \<^verbatim>\<open>bee_mutex_\<close> again\<close>
  | B_IfStop           \<comment> \<open>\<^verbatim>\<open>if (stop_signal_) return\<close>\<close>
  | B_Sleep            \<comment> \<open>\<^verbatim>\<open>sleep_for(time_to_hunt_)\<close>\<close>
  | B_SetHome          \<comment> \<open>\<^verbatim>\<open>at_home_ = true\<close>\<close>
  | B_RetLock          \<comment> \<open>\<^verbatim>\<open>ReturnOne\<close>: \<^verbatim>\<open>unique_lock lock{hive_mutex_}\<close>\<close>
  | B_RetPush          \<comment> \<open>\<^verbatim>\<open>bees_currently_in_hive_.push(bee)\<close>\<close>
  | B_RetCheck         \<comment> \<open>\<^verbatim>\<open>if (honey_count_ < kMaxHoneyCount)\<close>\<close>
  | B_RetIncr          \<comment> \<open>\<^verbatim>\<open>++honey_count_\<close>\<close>
  | B_RetUnlock        \<comment> \<open>end of the locked block\<close>
  | B_RetNotifyBee     \<comment> \<open>\<^verbatim>\<open>bee_count_condition_.notify_one()\<close>\<close>
  | B_RetNotifyHoney   \<comment> \<open>\<^verbatim>\<open>honey_count_condition_.notify_one()\<close>\<close>
  | B_Unlock           \<comment> \<open>end of the loop body: \<^verbatim>\<open>lock\<close> releases \<^verbatim>\<open>bee_mutex_\<close>\<close>
  | B_Done

text \<open>
  Control points of \<^verbatim>\<open>Hive::Run\<close>, with \<^verbatim>\<open>ReleaseOne\<close> and \<^verbatim>\<open>Bee::Hunt\<close>
  inlined. A call of \<^verbatim>\<open>Size()\<close> is two points: taking \<^verbatim>\<open>queue_mutex_\<close>, then reading
  the size and releasing it.
\<close>

datatype hive_pc =
    H_NotStarted
  | H_While            \<comment> \<open>\<^verbatim>\<open>while (!stop_signal_)\<close>\<close>
  | H_Lock             \<comment> \<open>\<^verbatim>\<open>unique_lock lock{hive_mutex_}\<close>\<close>
  | H_IfSize           \<comment> \<open>\<^verbatim>\<open>if (Size() <= 1)\<close>: enter \<^verbatim>\<open>Size\<close>\<close>
  | H_IfSizeRead
  | H_Pred             \<comment> \<open>predicate \<^verbatim>\<open>Size() > 1 || stop_signal_\<close>: enter \<^verbatim>\<open>Size\<close>\<close>
  | H_PredRead
  | H_Block            \<comment> \<open>\<^verbatim>\<open>bee_count_condition_.wait(lock)\<close>: release and park\<close>
  | H_Parked
  | H_Woken
  | H_IfStop           \<comment> \<open>\<^verbatim>\<open>if (stop_signal_) return\<close>\<close>
  | H_Unlock           \<comment> \<open>\<^verbatim>\<open>lock.unlock()\<close>\<close>
  | H_RelLock          \<comment> \<open>\<^verbatim>\<open>ReleaseOne\<close>: \<^verbatim>\<open>unique_lock lock{hive_mutex_}\<close>\<close>
  | H_RelPop           \<comment> \<open>\<^verbatim>\<open>front()\<close>, \<^verbatim>\<open>pop()\<close>, end of the locked lambda\<close>
  | H_RelRng           \<comment> \<open>\<^verbatim>\<open>release_ms = bee_hunting_time_.Next(rng_)\<close>\<close>
  | H_RelLog           \<comment> \<open>\<^verbatim>\<open>sync_log(..., Size(), ...)\<close>: enter \<^verbatim>\<open>Size\<close>\<close>
  | H_RelLogRead
  | H_HuntLock         \<comment> \<open>\<^verbatim>\<open>Hunt\<close>: \<^verbatim>\<open>unique_lock lock{bee_mutex_}\<close>\<close>
  | H_HuntSet          \<comment> \<open>\<^verbatim>\<open>at_home_ = false; time_to_hunt_ = time\<close>, end of block\<close>
  | H_HuntNotify       \<comment> \<open>\<^verbatim>\<open>condition_.notify_one()\<close>\<close>
  | H_Sleep            \<comment> \<open>\<^verbatim>\<open>sleep_for(bee_release_time_.Next(rng_))\<close>\<close>
  | H_Done

text \<open>Control points of \<^verbatim>\<open>Winnie::Run\<close>, with \<^verbatim>\<open>Attack\<close> and \<^verbatim>\<open>TryAttack\<close> inlined.\<close>

datatype winnie_pc =
    W_NotStarted
  | W_While            \<comment> \<open>\<^verbatim>\<open>while (!stop_signal_)\<close>\<close>
  | W_Lock             \<comment> \<open>\<^verbatim>\<open>unique_lock lock{hive_->hive_mutex_}\<close>\<close>
  | W_Pred             \<comment> \<open>predicate \<^verbatim>\<open>hive_->honey_count_ >= 15 || stop_signal_\<close>\<close>
  | W_Block            \<comment> \<open>\<^verbatim>\<open>honey_count_condition_.wait(lock)\<close>: release and park\<close>
  | W_Parked
  | W_Woken
  | W_IfStop           \<comment> \<open>\<^verbatim>\<open>if (stop_signal_) return\<close>\<close>
  | W_AttackLog        \<comment> \<open>\<^verbatim>\<open>Attack\<close>: \<^verbatim>\<open>sync_log(..., hive_->Size(), ...)\<close>: enter \<^verbatim>\<open>Size\<close>\<close>
  | W_AttackLogRead
  | W_TryAttack        \<comment> \<open>\<^verbatim>\<open>TryAttack\<close>: \<^verbatim>\<open>if (Size() < 3)\<close>: enter \<^verbatim>\<open>Size\<close>\<close>
  | W_TryAttackRead
  | W_TryReset         \<comment> \<open>\<^verbatim>\<open>honey_count_ = 0; return true\<close>\<close>
  | W_Continue         \<comment> \<open>\<^verbatim>\<open>continue\<close>: \<^verbatim>\<open>lock\<close> goes out of scope\<close>
  | W_Unlock           \<comment> \<open>\<^verbatim>\<open>lock.unlock()\<close>\<close>
  | W_Cure             \<comment> \<open>\<^verbatim>\<open>Cure()\<close>\<close>
  | W_Done

text \<open>
  Control points of \<^verbatim>\<open>main\<close>: \<^verbatim>\<open>App::Start\<close>, the sleep, \<^verbatim>\<open>App::End\<close> and the
  destructors of \<^verbatim>\<open>winnie_\<close> and \<^verbatim>\<open>hive_\<close> (in this order).
\<close>

datatype main_pc =
    M_StartBee nat       \<comment> \<open>\<^verbatim>\<open>Hive::Start\<close>: \<^verbatim>\<open>b.Start()\<close> for each bee\<close>
  | M_StartHive
  | M_StartWinnie
  | M_Sleep
  | M_HiveEndStop        \<comment> \<open>\<^verbatim>\<open>Hive::End\<close>: \<^verbatim>\<open>stop_signal_ = true\<close>\<close>
  | M_BeeEndStop nat     \<comment> \<open>\<^verbatim>\<open>Bee::End\<close>: \<^verbatim>\<open>stop_signal_ = true\<close>\<close>
  | M_BeeEndNotify nat   \<comment> \<open>\<^verbatim>\<open>Bee::End\<close>: \<^verbatim>\<open>condition_.notify_all()\<close>\<close>
  | M_HiveEndNotifyBee   \<comment> \<open>\<^verbatim>\<open>bee_count_condition_.notify_all()\<close>\<close>
  | M_HiveEndNotifyHoney \<comment> \<open>\<^verbatim>\<open>honey_count_condition_.notify_all()\<close>\<close>
  | M_WinnieEnd          \<comment> \<open>\<^verbatim>\<open>Winnie::End\<close>: \<^verbatim>\<open>stop_signal_ = true\<close>\<close>
  | M_JoinWinnie         \<comment> \<open>\<^verbatim>\<open>~Winnie\<close>\<close>
  | M_FinishBee nat      \<comment> \<open>\<^verbatim>\<open>~Hive\<close>: \<^verbatim>\<open>bee.Finish()\<close> for each bee\<close>
  | M_JoinHive
  | M_Exit

subsection \<open>State\<close>

record Bee =
  bee_mutex :: "tid option"
  at_home :: bool
  time_to_hunt :: int
  bee_id :: int
  bee_stop_signal :: bool
  bee_thread :: bee_pc

text \<open>
  \<^verbatim>\<open>App\<close> owns one \<^verbatim>\<open>Hive\<close> and one \<^verbatim>\<open>Winnie\<close>; their members are laid out in
  one record. \<open>next_bee\<close> and \<open>release_ms\<close> are the locals \<^verbatim>\<open>next\<close> and
  \<^verbatim>\<open>release_ms\<close> of \<^verbatim>\<open>ReleaseOne\<close>. The queue has its front at the head of the list.
\<close>

record App =
  all_bees :: "Bee list"
  queue_mutex :: "tid option"
  bees_currently_in_hive :: "nat list"
  honey_count :: int
  hive_mutex :: "tid option"
  hive_stop_signal :: bool
  hive_thread :: hive_pc
  next_bee :: nat
  release_ms :: int
  winnie_stop_signal :: bool
  winnie_thread :: winnie_pc
  main_thread :: main_pc

definition kMaxHoneyCount :: int where
  "kMaxHoneyCount = 30"

text \<open>
  \<^verbatim>\<open>Bee(owner, id)\<close>: \<^verbatim>\<open>time_to_hunt_\<close> has no initialiser in the source; it is read
  only after \<^verbatim>\<open>Hunt\<close> has written it, and starts at 0 here.
\<close>

definition Bee_ctor :: "int \<Rightarrow> Bee" where
  "Bee_ctor i = \<lparr>bee_mutex = None, at_home = True, time_to_hunt = 0, bee_id = i,
     bee_stop_signal = False, bee_thread = B_NotStarted\<rparr>"

text \<open>
  \<^verbatim>\<open>App(max_bee_count)\<close>, that is \<^verbatim>\<open>Hive(num_bees)\<close> and \<^verbatim>\<open>Winnie(&hive_)\<close>.
  A negative count makes \<^verbatim>\<open>reserve\<close> throw (\<^verbatim>\<open>std::length_error\<close>): no state.
\<close>

definition App_ctor :: "int \<Rightarrow> App option" where
  "App_ctor n =
     (if n < 0 then None
      else Some \<lparr>all_bees = map (\<lambda>i. Bee_ctor (int i)) [0..<nat n],
        queue_mutex = None,
        bees_currently_in_hive = [0..<nat n],
        honey_count = 0,
        hive_mutex = None,
        hive_stop_signal = False,
        hive_thread = H_NotStarted,
        next_bee = 0,
        release_ms = 0,
        winnie_stop_signal = False,
        winnie_thread = W_NotStarted,
        main_thread = M_StartBee 0\<rparr>)"

definition upd_bee :: "nat \<Rightarrow> (Bee \<Rightarrow> Bee) \<Rightarrow> App \<Rightarrow> App" where
  "upd_bee i f s = s\<lparr>all_bees := (all_bees s)[i := f (all_bees s ! i)]\<rparr>"

subsection \<open>Condition variables\<close>

text \<open>
  Each condition variable has one possible waiter: the bee's own thread on its
  \<^verbatim>\<open>condition_\<close>, the hive thread on \<^verbatim>\<open>bee_count_condition_\<close>, Winnie's thread on
  \<^verbatim>\<open>honey_count_condition_\<close>. So \<^verbatim>\<open>notify_one\<close> and \<^verbatim>\<open>notify_all\<close> do the same:
  a parked waiter becomes runnable, and nothing happens when nobody is parked.
\<close>

definition notify_condition :: "nat \<Rightarrow> App \<Rightarrow> App" where
  "notify_condition i s =
     (if i < length (all_bees s) \<and> bee_thread (all_bees s ! i) = B_Parked
      then upd_bee i (\<lambda>b. b\<lparr>bee_thread := B_Woken\<rparr>) s else s)"

definition notify_bee_count_condition :: "App \<Rightarrow> App" where
  "notify_bee_count_condition s =
     (if hive_thread s = H_Parked then s\<lparr>hive_thread := H_Woken\<rparr> else s)"

definition notify_honey_count_condition :: "App \<Rightarrow> App" where
  "notify_honey_count_condition s =
     (if winnie_thread s = W_Parked then s\<lparr>winnie_thread := W_Woken\<rparr> else s)"

subsection \<open>The member functions, run without interference\<close>

text \<open>\<^verbatim>\<open>Hive::Size\<close>: the value read under \<^verbatim>\<open>queue_mutex_\<close>.\<close>

definition Size :: "App \<Rightarrow> int" where
  "Size s = int (length (bees_currently_in_hive s))"

text \<open>\<^verbatim>\<open>Hive::TryAttack\<close>.\<close>

definition TryAttack :: "App \<Rightarrow> bool \<times> App" where
  "TryAttack s = (if Size s < 3 then (True, s\<lparr>honey_count := 0\<rparr>) else (False, s))"

text \<open>The statements of \<^verbatim>\<open>Hive::ReturnOne\<close> and their composition.\<close>

definition push_bee :: "nat \<Rightarrow> App \<Rightarrow> App" where
  "push_bee b s = s\<lparr>bees_currently_in_hive := bees_currently_in_hive s @ [b]\<rparr>"

definition incr_honey :: "App \<Rightarrow> App" where
  "incr_honey s = s\<lparr>honey_count := honey_count s + 1\<rparr>"

definition ReturnOne :: "nat \<Rightarrow> App \<Rightarrow> App" where
  "ReturnOne b s =
     (let s1 = push_bee b s;
          s2 = (if honey_count s1 < kMaxHoneyCount then incr_honey s1 else s1);
          s3 = notify_bee_count_condition s2
      in notify_honey_count_condition s3)"

text \<open>\<^verbatim>\<open>Bee::Hunt\<close> and \<^verbatim>\<open>Hive::ReleaseOne\<close>; \<^verbatim>\<open>front()\<close> of an empty queue is undefined.\<close>

definition set_hunting :: "nat \<Rightarrow> int \<Rightarrow> App \<Rightarrow> App" where
  "set_hunting b ms s = upd_bee b (\<lambda>x. x\<lparr>at_home := False, time_to_hunt := ms\<rparr>) s"

definition Hunt :: "nat \<Rightarrow> int \<Rightarrow> App \<Rightarrow> App" where
  "Hunt b ms s = notify_condition b (set_hunting b ms s)"

definition ReleaseOne :: "int \<Rightarrow> App \<Rightarrow> App outcome" where
  "ReleaseOne ms s =
     (case bees_currently_in_hive s of
        [] \<Rightarrow> Undefined
      | b # rest \<Rightarrow>
          Next (Hunt b ms (s\<lparr>bees_currently_in_hive := rest, next_bee := b, release_ms := ms\<rparr>)))"

text \<open>The three \<^verbatim>\<open>End\<close> functions.\<close>

definition set_bee_stop :: "nat \<Rightarrow> App \<Rightarrow> App" where
  "set_bee_stop i s = upd_bee i (\<lambda>b. b\<lparr>bee_stop_signal := True\<rparr>) s"

definition Bee_End :: "nat \<Rightarrow> App \<Rightarrow> App" where
  "Bee_End i s = notify_condition i (set_bee_stop i s)"

definition Hive_End :: "App \<Rightarrow> App" where
  "Hive_End s =
     notify_honey_count_condition (notify_bee_count_condition
       (fold Bee_End [0..<length (all_bees s)] (s\<lparr>hive_stop_signal := True\<rparr>)))"

definition Winnie_End :: "App \<Rightarrow> App" where
  "Winnie_End s = s\<lparr>winnie_stop_signal := True\<rparr>"

subsection \<open>One step of one thread\<close>

definition bee_step :: "nat \<Rightarrow> App \<Rightarrow> App outcome" where
  "bee_step i s =
     (if length (all_bees s) \<le> i then Blocked
      else let b = all_bees s ! i in
        case bee_thread b of
          B_NotStarted \<Rightarrow> Blocked
        | B_While \<Rightarrow>
            Next (upd_bee i (\<lambda>x. x\<lparr>bee_thread := (if bee_stop_signal b then B_Done else B_Lock)\<rparr>) s)
        | B_Lock \<Rightarrow>
            (if bee_mutex b = None
             then Next (upd_bee i (\<lambda>x. x\<lparr>bee_mutex := Some (BeeT i), bee_thread := B_Pred\<rparr>) s)
             else Blocked)
        | B_Pred \<Rightarrow>
            Next (upd_bee i (\<lambda>x. x\<lparr>bee_thread :=
              (if \<not> at_home b \<or> bee_stop_signal b then B_IfStop else B_Block)\<rparr>) s)
        | B_Block \<Rightarrow> Next (upd_bee i (\<lambda>x. x\<lparr>bee_mutex := None, bee_thread := B_Parked\<rparr>) s)
        | B_Parked \<Rightarrow> Blocked
        | B_Woken \<Rightarrow>
            (if bee_mutex b = None
             then Next (upd_bee i (\<lambda>x. x\<lparr>bee_mutex := Some (BeeT i), bee_thread := B_Pred\<rparr>) s)
             else Blocked)
        | B_IfStop \<Rightarrow>
            (if bee_stop_signal b
             then Next (upd_bee i (\<lambda>x. x\<lparr>bee_mutex := None, bee_thread := B_Done\<rparr>) s)
             else Next (upd_bee i (\<lambda>x. x\<lparr>bee_thread := B_Sleep\<rparr>) s))
        | B_Sleep \<Rightarrow> Next (upd_bee i (\<lambda>x. x\<lparr>bee_thread := B_SetHome\<rparr>) s)
        | B_SetHome \<Rightarrow> Next (upd_bee i (\<lambda>x. x\<lparr>at_home := True, bee_thread := B_RetLock\<rparr>) s)
        | B_RetLock \<Rightarrow>
            (if hive_mutex s = None
             then Next (upd_bee i (\<lambda>x. x\<lparr>bee_thread := B_RetPush\<rparr>) (s\<lparr>hive_mutex := Some (BeeT i)\<rparr>))
             else Blocked)
        | B_RetPush \<Rightarrow> Next (upd_bee i (\<lambda>x. x\<lparr>bee_thread := B_RetCheck\<rparr>) (push_bee i s))
        | B_RetCheck \<Rightarrow>
            Next (upd_bee i (\<lambda>x. x\<lparr>bee_thread :=
              (if honey_count s < kMaxHoneyCount then B_RetIncr else B_RetUnlock)\<rparr>) s)
        | B_RetIncr \<Rightarrow> Next (upd_bee i (\<lambda>x. x\<lparr>bee_thread := B_RetUnlock\<rparr>) (incr_honey s))
        | B_RetUnlock \<Rightarrow>
            Next (upd_bee i (\<lambda>x. x\<lparr>bee_thread := B_RetNotifyBee\<rparr>) (s\<lparr>hive_mutex := None\<rparr>))
        | B_RetNotifyBee \<Rightarrow>
            Next (upd_bee i (\<lambda>x. x\<lparr>bee_thread := B_RetNotifyHoney\<rparr>) (notify_bee_count_condition s))
        | B_RetNotifyHoney \<Rightarrow>
            Next (upd_bee i (\<lambda>x. x\<lparr>bee_thread := B_Unlock\<rparr>) (notify_honey_count_condition s))
        | B_Unlock \<Rightarrow> Next (upd_bee i (\<lambda>x. x\<lparr>bee_mutex := None, bee_thread := B_While\<rparr>) s)
        | B_Done \<Rightarrow> Blocked)"

text \<open>
  The hunting time is a sample \<open>r\<close> of \<^verbatim>\<open>RNGSettings<800, 1200>\<close>, the pause between two
  releases a sample of \<^verbatim>\<open>RNGSettings<50, 100>\<close>.
\<close>

definition hive_step :: "int \<Rightarrow> App \<Rightarrow> App outcome" where
  "hive_step r s =
     (case hive_thread s of
        H_NotStarted \<Rightarrow> Blocked
      | H_While \<Rightarrow> Next (s\<lparr>hive_thread := (if hive_stop_signal s then H_Done else H_Lock)\<rparr>)
      | H_Lock \<Rightarrow>
          (if hive_mutex s = None
           then Next (s\<lparr>hive_mutex := Some HiveT, hive_thread := H_IfSize\<rparr>) else Blocked)
      | H_IfSize \<Rightarrow>
          (if queue_mutex s = None
           then Next (s\<lparr>queue_mutex := Some HiveT, hive_thread := H_IfSizeRead\<rparr>) else Blocked)
      | H_IfSizeRead \<Rightarrow>
          Next (s\<lparr>queue_mutex := None,
                  hive_thread := (if Size s \<le> 1 then H_Pred else H_IfStop)\<rparr>)
      | H_Pred \<Rightarrow>
          (if queue_mutex s = None
           then Next (s\<lparr>queue_mutex := Some HiveT, hive_thread := H_PredRead\<rparr>) else Blocked)
      | H_PredRead \<Rightarrow>
          Next (s\<lparr>queue_mutex := None,
                  hive_thread := (if Size s > 1 \<or> hive_stop_signal s then H_IfStop else H_Block)\<rparr>)
      | H_Block \<Rightarrow> Next (s\<lparr>hive_mutex := None, hive_thread := H_Parked\<rparr>)
      | H_Parked \<Rightarrow> Blocked
      | H_Woken \<Rightarrow>
          (if hive_mutex s = None
           then Next (s\<lparr>hive_mutex := Some HiveT, hive_thread := H_Pred\<rparr>) else Blocked)
      | H_IfStop \<Rightarrow>
          (if hive_stop_signal s
           then Next (s\<lparr>hive_mutex := None, hive_thread := H_Done\<rparr>)
           else Next (s\<lparr>hive_thread := H_Unlock\<rparr>))
      | H_Unlock \<Rightarrow> Next (s\<lparr>hive_mutex := None, hive_thread := H_RelLock\<rparr>)
      | H_RelLock \<Rightarrow>
          (if hive_mutex s = None
           then Next (s\<lparr>hive_mutex := Some HiveT, hive_thread := H_RelPop\<rparr>) else Blocked)
      | H_RelPop \<Rightarrow>
          (case bees_currently_in_hive s of
             [] \<Rightarrow> Undefined
           | b # rest \<Rightarrow>
               Next (s\<lparr>bees_currently_in_hive := rest, next_bee := b,
                       hive_mutex := None, hive_thread := H_RelRng\<rparr>))
      | H_RelRng \<Rightarrow>
          (if 800 \<le> r \<and> r \<le> 1200
           then Next (s\<lparr>release_ms := r, hive_thread := H_RelLog\<rparr>) else Blocked)
      | H_RelLog \<Rightarrow>
          (if queue_mutex s = None
           then Next (s\<lparr>queue_mutex := Some HiveT, hive_thread := H_RelLogRead\<rparr>) else Blocked)
      | H_RelLogRead \<Rightarrow> Next (s\<lparr>queue_mutex := None, hive_thread := H_HuntLock\<rparr>)
      | H_HuntLock \<Rightarrow>
          (if length (all_bees s) \<le> next_bee s then Undefined
           else if bee_mutex (all_bees s ! next_bee s) = None
           then Next (upd_bee (next_bee s) (\<lambda>x. x\<lparr>bee_mutex := Some HiveT\<rparr>)
                        (s\<lparr>hive_thread := H_HuntSet\<rparr>))
           else Blocked)
      | H_HuntSet \<Rightarrow>
          Next (upd_bee (next_bee s) (\<lambda>x. x\<lparr>bee_mutex := None\<rparr>)
                 (set_hunting (next_bee s) (release_ms s) (s\<lparr>hive_thread := H_HuntNotify\<rparr>)))
      | H_HuntNotify \<Rightarrow> Next (notify_condition (next_bee s) (s\<lparr>hive_thread := H_Sleep\<rparr>))
      | H_Sleep \<Rightarrow>
          (if 50 \<le> r \<and> r \<le> 100 then Next (s\<lparr>hive_thread := H_While\<rparr>) else Blocked)
      | H_Done \<Rightarrow> Blocked)"

definition winnie_step :: "App \<Rightarrow> App outcome" where
  "winnie_step s =
     (case winnie_thread s of
        W_NotStarted \<Rightarrow> Blocked
      | W_While \<Rightarrow> Next (s\<lparr>winnie_thread := (if winnie_stop_signal s then W_Done else W_Lock)\<rparr>)
      | W_Lock \<Rightarrow>
          (if hive_mutex s = None
           then Next (s\<lparr>hive_mutex := Some WinnieT, winnie_thread := W_Pred\<rparr>) else Blocked)
      | W_Pred \<Rightarrow>
          Next (s\<lparr>winnie_thread :=
            (if honey_count s \<ge> 15 \<or> winnie_stop_signal s then W_IfStop else W_Block)\<rparr>)
      | W_Block \<Rightarrow> Next (s\<lparr>hive_mutex := None, winnie_thread := W_Parked\<rparr>)
      | W_Parked \<Rightarrow> Blocked
      | W_Woken \<Rightarrow>
          (if hive_mutex s = None
           then Next (s\<lparr>hive_mutex := Some WinnieT, winnie_thread := W_Pred\<rparr>) else Blocked)
      | W_IfStop \<Rightarrow>
          (if winnie_stop_signal s
           then Next (s\<lparr>hive_mutex := None, winnie_thread := W_Done\<rparr>)
           else Next (s\<lparr>winnie_thread := W_AttackLog\<rparr>))
      | W_AttackLog \<Rightarrow>
          (if queue_mutex s = None
           then Next (s\<lparr>queue_mutex := Some WinnieT, winnie_thread := W_AttackLogRead\<rparr>)
           else Blocked)
      | W_AttackLogRead \<Rightarrow> Next (s\<lparr>queue_mutex := None, winnie_thread := W_TryAttack\<rparr>)
      | W_TryAttack \<Rightarrow>
          (if queue_mutex s = None
           then Next (s\<lparr>queue_mutex := Some WinnieT, winnie_thread := W_TryAttackRead\<rparr>)
           else Blocked)
      | W_TryAttackRead \<Rightarrow>
          Next (s\<lparr>queue_mutex := None,
                  winnie_thread := (if Size s < 3 then W_TryReset else W_Unlock)\<rparr>)
      | W_TryReset \<Rightarrow> Next (s\<lparr>honey_count := 0, winnie_thread := W_Continue\<rparr>)
      | W_Continue \<Rightarrow> Next (s\<lparr>hive_mutex := None, winnie_thread := W_While\<rparr>)
      | W_Unlock \<Rightarrow> Next (s\<lparr>hive_mutex := None, winnie_thread := W_Cure\<rparr>)
      | W_Cure \<Rightarrow> Next (s\<lparr>winnie_thread := W_While\<rparr>)
      | W_Done \<Rightarrow> Blocked)"

text \<open>
  A \<^verbatim>\<open>join\<close> blocks until the joined thread has finished; a thread that was never
  started is not joinable and is skipped.
\<close>

definition main_step :: "App \<Rightarrow> App outcome" where
  "main_step s =
     (case main_thread s of
        M_StartBee i \<Rightarrow>
          (if i < length (all_bees s)
           then Next (upd_bee i (\<lambda>x. x\<lparr>bee_thread := B_While\<rparr>) (s\<lparr>main_thread := M_StartBee (Suc i)\<rparr>))
           else Next (s\<lparr>main_thread := M_StartHive\<rparr>))
      | M_StartHive \<Rightarrow> Next (s\<lparr>hive_thread := H_While, main_thread := M_StartWinnie\<rparr>)
      | M_StartWinnie \<Rightarrow> Next (s\<lparr>winnie_thread := W_While, main_thread := M_Sleep\<rparr>)
      | M_Sleep \<Rightarrow> Next (s\<lparr>main_thread := M_HiveEndStop\<rparr>)
      | M_HiveEndStop \<Rightarrow> Next (s\<lparr>hive_stop_signal := True, main_thread := M_BeeEndStop 0\<rparr>)
      | M_BeeEndStop i \<Rightarrow>
          (if i < length (all_bees s)
           then Next (set_bee_stop i (s\<lparr>main_thread := M_BeeEndNotify i\<rparr>))
           else Next (s\<lparr>main_thread := M_HiveEndNotifyBee\<rparr>))
      | M_BeeEndNotify i \<Rightarrow> Next (notify_condition i (s\<lparr>main_thread := M_BeeEndStop (Suc i)\<rparr>))
      | M_HiveEndNotifyBee \<Rightarrow>
          Next (notify_bee_count_condition (s\<lparr>main_thread := M_HiveEndNotifyHoney\<rparr>))
      | M_HiveEndNotifyHoney \<Rightarrow>
          Next (notify_honey_count_condition (s\<lparr>main_thread := M_WinnieEnd\<rparr>))
      | M_WinnieEnd \<Rightarrow> Next (Winnie_End (s\<lparr>main_thread := M_JoinWinnie\<rparr>))
      | M_JoinWinnie \<Rightarrow>
          (if winnie_thread s = W_Done \<or> winnie_thread s = W_NotStarted
           then Next (s\<lparr>main_thread := M_FinishBee 0\<rparr>) else Blocked)
      | M_FinishBee i \<Rightarrow>
          (if i < length (all_bees s)
           then (if bee_thread (all_bees s ! i) = B_Done \<or> bee_thread (all_bees s ! i) = B_NotStarted
                 then Next (s\<lparr>main_thread := M_FinishBee (Suc i)\<rparr>) else Blocked)
           else Next (s\<lparr>main_thread := M_JoinHive\<rparr>))
      | M_JoinHive \<Rightarrow>
          (if hive_thread s = H_Done \<or> hive_thread s = H_NotStarted
           then Next (s\<lparr>main_thread := M_Exit\<rparr>) else Blocked)
      | M_Exit \<Rightarrow> Blocked)"

text \<open>
  A wait may also return without a notification (a spurious wake-up, which the C++
  standard allows and does not promise): the parked thread becomes runnable.
\<close>

definition spurious :: "tid \<Rightarrow> App \<Rightarrow> App outcome" where
  "spurious t s =
     (case t of
        MainT \<Rightarrow> Blocked
      | HiveT \<Rightarrow> (if hive_thread s = H_Parked then Next (s\<lparr>hive_thread := H_Woken\<rparr>) else Blocked)
      | BeeT i \<Rightarrow>
          (if i < length (all_bees s) \<and> bee_thread (all_bees s ! i) = B_Parked
           then Next (upd_bee i (\<lambda>x. x\<lparr>bee_thread := B_Woken\<rparr>) s) else Blocked)
      | WinnieT \<Rightarrow>
          (if winnie_thread s = W_Parked then Next (s\<lparr>winnie_thread := W_Woken\<rparr>) else Blocked))"

datatype action = Run tid int | Spurious tid

fun step :: "action \<Rightarrow> App \<Rightarrow> App outcome" where
  "step (Run MainT r) s = main_step s"
| "step (Run HiveT r) s = hive_step r s"
| "step (Run (BeeT i) r) s = bee_step i s"
| "step (Run WinnieT r) s = winnie_step s"
| "step (Spurious t) s = spurious t s"

fun exec :: "action list \<Rightarrow> App \<Rightarrow> App outcome" where
  "exec [] s = Next s"
| "exec (a # as) s = (case step a s of Next s' \<Rightarrow> exec as s' | Blocked \<Rightarrow> Blocked | Undefined \<Rightarrow> Undefined)"

inductive reachable :: "int \<Rightarrow> App \<Rightarrow> bool" for n :: int where
  reachable_init: "App_ctor n = Some s \<Longrightarrow> reachable n s"
| reachable_step: "reachable n s \<Longrightarrow> step a s = Next s' \<Longrightarrow> reachable n s'"

section \<open>Invariants of the reachable states\<close>

subsection \<open>Who holds which mutex\<close>

text \<open>
  The control points at which a thread holds \<^verbatim>\<open>hive_mutex_\<close>: in \<^verbatim>\<open>Hive::Run\<close> from the
  \<^verbatim>\<open>unique_lock\<close> to the wait, the early return or \<^verbatim>\<open>unlock()\<close>, and inside the lambda
  of \<^verbatim>\<open>ReleaseOne\<close>; in \<^verbatim>\<open>Winnie::Run\<close> from the \<^verbatim>\<open>unique_lock\<close> to the wait, the
  return, \<^verbatim>\<open>continue\<close> or \<^verbatim>\<open>unlock()\<close>; in a bee, the locked block of \<^verbatim>\<open>ReturnOne\<close>.
\<close>

fun hive_cs :: "hive_pc \<Rightarrow> bool" where
  "hive_cs H_IfSize = True" | "hive_cs H_IfSizeRead = True" | "hive_cs H_Pred = True"
| "hive_cs H_PredRead = True" | "hive_cs H_Block = True" | "hive_cs H_IfStop = True"
| "hive_cs H_Unlock = True" | "hive_cs H_RelPop = True" | "hive_cs _ = False"

fun winnie_cs :: "winnie_pc \<Rightarrow> bool" where
  "winnie_cs W_NotStarted = False" | "winnie_cs W_While = False" | "winnie_cs W_Lock = False"
| "winnie_cs W_Parked = False" | "winnie_cs W_Woken = False" | "winnie_cs W_Cure = False"
| "winnie_cs W_Done = False" | "winnie_cs _ = True"

fun bee_cs :: "bee_pc \<Rightarrow> bool" where
  "bee_cs B_RetPush = True" | "bee_cs B_RetCheck = True" | "bee_cs B_RetIncr = True"
| "bee_cs B_RetUnlock = True" | "bee_cs _ = False"

text \<open>Inside \<^verbatim>\<open>Size()\<close>, holding \<^verbatim>\<open>queue_mutex_\<close>.\<close>

fun hive_in_Size :: "hive_pc \<Rightarrow> bool" where
  "hive_in_Size H_IfSizeRead = True" | "hive_in_Size H_PredRead = True"
| "hive_in_Size H_RelLogRead = True" | "hive_in_Size _ = False"

fun winnie_in_Size :: "winnie_pc \<Rightarrow> bool" where
  "winnie_in_Size W_AttackLogRead = True" | "winnie_in_Size W_TryAttackRead = True"
| "winnie_in_Size _ = False"

text \<open>A bee holds its own \<^verbatim>\<open>bee_mutex_\<close> throughout the loop body, except while parked.\<close>

fun bee_locked :: "bee_pc \<Rightarrow> bool" where
  "bee_locked B_NotStarted = False" | "bee_locked B_While = False" | "bee_locked B_Lock = False"
| "bee_locked B_Parked = False" | "bee_locked B_Woken = False" | "bee_locked B_Done = False"
| "bee_locked _ = True"

text \<open>Threads that \<^verbatim>\<open>main\<close> has not started yet.\<close>

fun hive_unstarted :: "main_pc \<Rightarrow> bool" where
  "hive_unstarted (M_StartBee k) = True" | "hive_unstarted M_StartHive = True"
| "hive_unstarted _ = False"

fun winnie_unstarted :: "main_pc \<Rightarrow> bool" where
  "winnie_unstarted (M_StartBee k) = True" | "winnie_unstarted M_StartHive = True"
| "winnie_unstarted M_StartWinnie = True" | "winnie_unstarted _ = False"

fun bee_unstarted :: "main_pc \<Rightarrow> nat \<Rightarrow> bool" where
  "bee_unstarted (M_StartBee k) j = (k \<le> j)" | "bee_unstarted _ j = False"

text \<open>Winnie between the end of her wait and the size check of \<^verbatim>\<open>TryAttack\<close>.\<close>

fun winnie_armed :: "winnie_pc \<Rightarrow> bool" where
  "winnie_armed W_IfStop = True" | "winnie_armed W_AttackLog = True"
| "winnie_armed W_AttackLogRead = True" | "winnie_armed W_TryAttack = True"
| "winnie_armed W_TryAttackRead = True" | "winnie_armed _ = False"

text \<open>Inside \<^verbatim>\<open>TryAttack\<close>.\<close>

fun winnie_raiding :: "winnie_pc \<Rightarrow> bool" where
  "winnie_raiding W_TryAttack = True" | "winnie_raiding W_TryAttackRead = True"
| "winnie_raiding W_TryReset = True" | "winnie_raiding _ = False"

definition glob_lock :: "App \<Rightarrow> bool" where
  "glob_lock s \<longleftrightarrow>
     (hive_cs (hive_thread s) \<longleftrightarrow> hive_mutex s = Some HiveT) \<and>
     (winnie_cs (winnie_thread s) \<longleftrightarrow> hive_mutex s = Some WinnieT) \<and>
     (\<forall>i. hive_mutex s = Some (BeeT i) \<longrightarrow> i < length (all_bees s)) \<and>
     hive_mutex s \<noteq> Some MainT \<and>
     (hive_unstarted (main_thread s) \<longrightarrow> hive_thread s = H_NotStarted) \<and>
     (winnie_unstarted (main_thread s) \<longrightarrow> winnie_thread s = W_NotStarted) \<and>
     (hive_in_Size (hive_thread s) \<longrightarrow> queue_mutex s = Some HiveT) \<and>
     (winnie_in_Size (winnie_thread s) \<longrightarrow> queue_mutex s = Some WinnieT) \<and>
     (hive_thread s = H_HuntSet \<longrightarrow>
        next_bee s < length (all_bees s) \<and> bee_mutex (all_bees s ! next_bee s) = Some HiveT) \<and>
     (winnie_armed (winnie_thread s) \<longrightarrow> 15 \<le> honey_count s \<or> winnie_stop_signal s) \<and>
     (winnie_thread s = W_TryReset \<longrightarrow> length (bees_currently_in_hive s) < 3) \<and>
     0 \<le> honey_count s \<and> honey_count s \<le> kMaxHoneyCount"

definition bee_lock :: "App \<Rightarrow> nat \<Rightarrow> bool" where
  "bee_lock s j \<longleftrightarrow>
     (bee_cs (bee_thread (all_bees s ! j)) \<longleftrightarrow> hive_mutex s = Some (BeeT j)) \<and>
     (bee_locked (bee_thread (all_bees s ! j)) \<longrightarrow> bee_mutex (all_bees s ! j) = Some (BeeT j)) \<and>
     (bee_thread (all_bees s ! j) = B_RetIncr \<longrightarrow> honey_count s < kMaxHoneyCount) \<and>
     (bee_unstarted (main_thread s) j \<longrightarrow> bee_thread (all_bees s ! j) = B_NotStarted)"

definition lock_inv :: "App \<Rightarrow> bool" where
  "lock_inv s \<longleftrightarrow> glob_lock s \<and> (\<forall>j < length (all_bees s). bee_lock s j)"

subsection \<open>Where the bees are\<close>

text \<open>
  The hive thread between \<^verbatim>\<open>pop()\<close> and the assignment \<^verbatim>\<open>at_home_ = false\<close> of
  \<^verbatim>\<open>Hunt\<close> (the popped bee is \<open>next_bee\<close>), and a bee between \<^verbatim>\<open>at_home_ = true\<close>
  and its \<^verbatim>\<open>push\<close>: the bee concerned is neither in the queue nor hunting.
\<close>

fun hive_transit :: "hive_pc \<Rightarrow> bool" where
  "hive_transit H_RelRng = True" | "hive_transit H_RelLog = True"
| "hive_transit H_RelLogRead = True" | "hive_transit H_HuntLock = True"
| "hive_transit H_HuntSet = True" | "hive_transit _ = False"

fun bee_returning :: "bee_pc \<Rightarrow> bool" where
  "bee_returning B_RetLock = True" | "bee_returning B_RetPush = True" | "bee_returning _ = False"

definition in_transit :: "App \<Rightarrow> nat \<Rightarrow> bool" where
  "in_transit s j \<longleftrightarrow>
     bee_returning (bee_thread (all_bees s ! j)) \<or> (hive_transit (hive_thread s) \<and> next_bee s = j)"

text \<open>After the size check of \<^verbatim>\<open>Hive::Run\<close> has passed, up to the \<^verbatim>\<open>pop()\<close>.\<close>

fun hive_ready :: "hive_pc \<Rightarrow> bool" where
  "hive_ready H_Unlock = True" | "hive_ready H_RelLock = True" | "hive_ready H_RelPop = True"
| "hive_ready _ = False"

fun bee_away :: "bee_pc \<Rightarrow> bool" where
  "bee_away B_Sleep = True" | "bee_away B_SetHome = True" | "bee_away _ = False"

definition glob_pop :: "App \<Rightarrow> bool" where
  "glob_pop s \<longleftrightarrow>
     distinct (bees_currently_in_hive s) \<and>
     (\<forall>b \<in> set (bees_currently_in_hive s). b < length (all_bees s)) \<and>
     (hive_transit (hive_thread s) \<longrightarrow>
        next_bee s < length (all_bees s) \<and> at_home (all_bees s ! next_bee s)) \<and>
     (hive_ready (hive_thread s) \<longrightarrow> 2 \<le> length (bees_currently_in_hive s)) \<and>
     (hive_thread s = H_IfStop \<longrightarrow> 2 \<le> length (bees_currently_in_hive s) \<or> hive_stop_signal s) \<and>
     (1 \<le> length (all_bees s) \<longrightarrow> 1 \<le> length (bees_currently_in_hive s)) \<and>
     (hive_unstarted (main_thread s) \<longrightarrow> hive_thread s = H_NotStarted)"

definition bee_pop :: "App \<Rightarrow> nat \<Rightarrow> bool" where
  "bee_pop s j \<longleftrightarrow>
     (j \<in> set (bees_currently_in_hive s) \<longleftrightarrow> at_home (all_bees s ! j) \<and> \<not> in_transit s j) \<and>
     (bee_returning (bee_thread (all_bees s ! j)) \<longrightarrow>
        at_home (all_bees s ! j) \<and> \<not> (hive_transit (hive_thread s) \<and> next_bee s = j)) \<and>
     (bee_away (bee_thread (all_bees s ! j)) \<longrightarrow> \<not> at_home (all_bees s ! j)) \<and>
     (bee_thread (all_bees s ! j) = B_IfStop \<longrightarrow>
        \<not> at_home (all_bees s ! j) \<or> bee_stop_signal (all_bees s ! j)) \<and>
     (bee_unstarted (main_thread s) j \<longrightarrow> bee_thread (all_bees s ! j) = B_NotStarted)"

definition pop_inv :: "App \<Rightarrow> bool" where
  "pop_inv s \<longleftrightarrow> glob_pop s \<and> (\<forall>j < length (all_bees s). bee_pop s j)"

text \<open>The three counts of the population invariant.\<close>

definition present_count :: "App \<Rightarrow> nat" where
  "present_count s = length (bees_currently_in_hive s)"

definition hunting_count :: "App \<Rightarrow> nat" where
  "hunting_count s = length (filter (\<lambda>b. \<not> at_home b) (all_bees s))"

definition transit_count :: "App \<Rightarrow> nat" where
  "transit_count s = length (filter (in_transit s) [0..<length (all_bees s)])"

definition quiescent :: "App \<Rightarrow> bool" where
  "quiescent s \<longleftrightarrow> \<not> hive_transit (hive_thread s) \<and>
     list_all (\<lambda>b. \<not> bee_returning (bee_thread b)) (all_bees s)"

subsection \<open>Reading the size against a push or a pop\<close>

text \<open>
  A thread inside \<^verbatim>\<open>Size()\<close> owns \<^verbatim>\<open>queue_mutex_\<close>; a thread inside a block that pushes
  or pops owns \<^verbatim>\<open>hive_mutex_\<close>. Were the two guarded by one lock, they would never be
  two different threads at the same time.
\<close>

definition Size_serialized :: "App \<Rightarrow> bool" where
  "Size_serialized s \<longleftrightarrow>
     queue_mutex s = None \<or> hive_mutex s = None \<or> hive_mutex s = queue_mutex s"

subsection \<open>Winnie's way through one attack\<close>

fun is_winnie_run :: "action \<Rightarrow> bool" where
  "is_winnie_run (Run WinnieT r) = True" | "is_winnie_run _ = False"

definition winnie_runs :: "action list \<Rightarrow> nat" where
  "winnie_runs as = length (filter is_winnie_run as)"

text \<open>
  The control points Winnie passes, one per step of hers, from the predicate of the wait:
  when the raid succeeds (back to the predicate), and when it fails (to the head of the loop).
\<close>

definition raid_path :: "winnie_pc list" where
  "raid_path = [W_Pred, W_IfStop, W_AttackLog, W_AttackLogRead, W_TryAttack, W_TryAttackRead,
     W_TryReset, W_Continue, W_While, W_Lock, W_Pred]"

definition retreat_path :: "winnie_pc list" where
  "retreat_path = [W_Pred, W_IfStop, W_AttackLog, W_AttackLogRead, W_TryAttack, W_TryAttackRead,
     W_Unlock, W_Cure, W_While]"

definition raid_stage :: "nat list \<Rightarrow> int \<Rightarrow> nat \<Rightarrow> App \<Rightarrow> bool" where
  "raid_stage q h k s \<longleftrightarrow>
     lock_inv s \<and> k \<le> 10 \<and> winnie_thread s = raid_path ! k \<and>
     (k \<le> 7 \<longrightarrow> bees_currently_in_hive s = q) \<and>
     (k \<le> 6 \<longrightarrow> honey_count s = h) \<and>
     (k = 7 \<longrightarrow> honey_count s = 0)"

definition retreat_stage :: "nat list \<Rightarrow> int \<Rightarrow> nat \<Rightarrow> App \<Rightarrow> bool" where
  "retreat_stage q h k s \<longleftrightarrow>
     lock_inv s \<and> k \<le> 8 \<and> winnie_thread s = retreat_path ! k \<and>
     (k \<le> 6 \<longrightarrow> bees_currently_in_hive s = q \<and> honey_count s = h)"

subsection \<open>A bee after \<^verbatim>\<open>Bee::End\<close>\<close>

definition stopped_bee :: "Bee \<Rightarrow> Bee" where
  "stopped_bee b = b\<lparr>bee_stop_signal := True,
     bee_thread := (if bee_thread b = B_Parked then B_Woken else bee_thread b)\<rparr>"

section \<open>Schedules and states used as concrete inputs\<close>

text \<open>
  With three bees: \<^verbatim>\<open>main\<close> starts every thread; the hive thread runs one iteration of its
  loop, releasing the bee at the front; a released bee runs one iteration of its loop, hunting
  and returning.
\<close>

definition sched_start :: "action list" where
  "sched_start = replicate 6 (Run MainT 0)"

definition sched_release :: "action list" where
  "sched_release = replicate 14 (Run HiveT 900) @ [Run HiveT 50]"

definition sched_return :: "nat \<Rightarrow> action list" where
  "sched_return b = replicate 14 (Run (BeeT b) 0)"

text \<open>
  Bee 0 is released and comes back as far as the lock of \<^verbatim>\<open>ReturnOne\<close>; the hive thread
  releases bee 1 as far as the \<^verbatim>\<open>Size()\<close> of its log line; then bee 0 takes \<^verbatim>\<open>hive_mutex_\<close>.
\<close>

definition sched_overlap :: "action list" where
  "sched_overlap = sched_release @ replicate 6 (Run (BeeT 0) 0)
     @ replicate 10 (Run HiveT 900) @ [Run (BeeT 0) 0]"

text \<open>Fifteen releases, each followed by the return of the released bee.\<close>

definition sched_fill :: "action list" where
  "sched_fill = concat (map (\<lambda>j. sched_release @ sched_return (j mod 3)) [0..<15])"

text \<open>
  With one bee: every thread starts and parks on its condition variable; \<^verbatim>\<open>main\<close> runs
  \<^verbatim>\<open>Hive::End\<close>; Winnie, woken by it, finds her predicate false and parks again; \<^verbatim>\<open>main\<close>
  runs \<^verbatim>\<open>Winnie::End\<close>; the hive thread and the bee finish.
\<close>

definition sched_stuck :: "action list" where
  "sched_stuck = replicate 4 (Run MainT 0) @ replicate 4 (Run WinnieT 0)
     @ replicate 7 (Run HiveT 0) @ replicate 4 (Run (BeeT 0) 0) @ replicate 7 (Run MainT 0)
     @ replicate 3 (Run WinnieT 0) @ [Run MainT 0] @ replicate 4 (Run HiveT 0)
     @ replicate 3 (Run (BeeT 0) 0)"

text \<open>Seven steps of Winnie, with a step of the hive thread in between.\<close>

definition sched_attack :: "action list" where
  "sched_attack = replicate 2 (Run WinnieT 0) @ [Run HiveT 0] @ replicate 5 (Run WinnieT 0)"

definition idle_bee :: "int \<Rightarrow> Bee" where
  "idle_bee i = \<lparr>bee_mutex = None, at_home = True, time_to_hunt = 0, bee_id = i,
     bee_stop_signal = False, bee_thread = B_While\<rparr>"

text \<open>All threads started, nothing else done.\<close>

definition running_state :: App where
  "running_state = \<lparr>all_bees = [idle_bee 0, idle_bee 1, idle_bee 2],
     queue_mutex = None, bees_currently_in_hive = [0, 1, 2], honey_count = 0,
     hive_mutex = None, hive_stop_signal = False, hive_thread = H_While,
     next_bee = 0, release_ms = 0, winnie_stop_signal = False, winnie_thread = W_While,
     main_thread = M_Sleep\<rparr>"

text \<open>The hive thread is about to pop the front of the queue.\<close>

definition pop_state :: App where
  "pop_state = running_state\<lparr>hive_mutex := Some HiveT, hive_thread := H_RelPop\<rparr>"

text \<open>Bee 0 is hunting, the other two are in the queue.\<close>

definition released_state :: App where
  "released_state = running_state\<lparr>
     all_bees := [(idle_bee 0)\<lparr>at_home := False, time_to_hunt := 900\<rparr>, idle_bee 1, idle_bee 2],
     bees_currently_in_hive := [1, 2], release_ms := 900\<rparr>"

text \<open>
  The hive thread is inside \<^verbatim>\<open>Size()\<close>, called from the log line of \<^verbatim>\<open>ReleaseOne\<close>, and
  bee 0 is inside the locked block of \<^verbatim>\<open>ReturnOne\<close>, about to push itself.
\<close>

definition overlap_state :: App where
  "overlap_state = running_state\<lparr>
     all_bees := [(idle_bee 0)\<lparr>bee_mutex := Some (BeeT 0), time_to_hunt := 900,
                     bee_thread := B_RetPush\<rparr>, idle_bee 1, idle_bee 2],
     queue_mutex := Some HiveT, bees_currently_in_hive := [2],
     hive_mutex := Some (BeeT 0), hive_thread := H_RelLogRead, next_bee := 1, release_ms := 900\<rparr>"

text \<open>Two steps later bee 0 is about to increment the honey.\<close>

definition incr_state :: App where
  "incr_state = overlap_state\<lparr>
     all_bees := [(idle_bee 0)\<lparr>bee_mutex := Some (BeeT 0), time_to_hunt := 900,
                     bee_thread := B_RetIncr\<rparr>, idle_bee 1, idle_bee 2],
     bees_currently_in_hive := [2, 0]\<rparr>"

text \<open>
  Fifteen returns later Winnie evaluates her predicate with all three bees at home, or,
  after one more release, with two.
\<close>

definition full_hive_state :: App where
  "full_hive_state = running_state\<lparr>
     all_bees := [(idle_bee 0)\<lparr>time_to_hunt := 900\<rparr>, (idle_bee 1)\<lparr>time_to_hunt := 900\<rparr>,
                  (idle_bee 2)\<lparr>time_to_hunt := 900\<rparr>],
     honey_count := 15, hive_mutex := Some WinnieT, next_bee := 2, release_ms := 900,
     winnie_thread := W_Pred\<rparr>"

definition weak_hive_state :: App where
  "weak_hive_state = full_hive_state\<lparr>
     all_bees := [(idle_bee 0)\<lparr>at_home := False, time_to_hunt := 900\<rparr>,
                  (idle_bee 1)\<lparr>time_to_hunt := 900\<rparr>, (idle_bee 2)\<lparr>time_to_hunt := 900\<rparr>],
     bees_currently_in_hive := [1, 2], next_bee := 0\<rparr>"

text \<open>One bee, everything stopped, Winnie still parked.\<close>

definition stuck_state :: App where
  "stuck_state = \<lparr>all_bees = [\<lparr>bee_mutex = None, at_home = True, time_to_hunt = 0, bee_id = 0,
       bee_stop_signal = True, bee_thread = B_Done\<rparr>],
     queue_mutex = None, bees_currently_in_hive = [0], honey_count = 0,
     hive_mutex = None, hive_stop_signal = True, hive_thread = H_Done,
     next_bee = 0, release_ms = 0, winnie_stop_signal = True, winnie_thread = W_Parked,
     main_thread = M_JoinWinnie\<rparr>"

text \<open>
  The hive thread and Winnie are parked, the honey count is 29, and bee 0 is back from its
  hunt, about to enter \<^verbatim>\<open>ReturnOne\<close>.
\<close>

definition returning_state :: App where
  "returning_state = running_state\<lparr>
     all_bees := [(idle_bee 0)\<lparr>bee_mutex := Some (BeeT 0), time_to_hunt := 900,
                     bee_thread := B_RetLock\<rparr>,
                  (idle_bee 1)\<lparr>at_home := False, time_to_hunt := 900\<rparr>, idle_bee 2],
     bees_currently_in_hive := [2], honey_count := 29, hive_thread := H_Parked,
     next_bee := 1, release_ms := 900, winnie_thread := W_Parked\<rparr>"

section \<open>Proofs\<close>

subsection \<open>Steps keep the number of bees\<close>

lemmas pieces = upd_bee_def notify_condition_def notify_bee_count_condition_def
  notify_honey_count_condition_def push_bee_def incr_honey_def set_hunting_def set_bee_stop_def
  Winnie_End_def Size_def

lemma bee_step_length: "bee_step i s = Next s' \<Longrightarrow> length (all_bees s') = length (all_bees s)"
  by (cases "bee_thread (all_bees s ! i)";
      clarsimp simp add: bee_step_def Let_def pieces split: if_splits)

lemma hive_step_length: "hive_step r s = Next s' \<Longrightarrow> length (all_bees s') = length (all_bees s)"
  by (cases "hive_thread s"; clarsimp simp add: hive_step_def pieces split: if_splits list.splits)

lemma winnie_step_length: "winnie_step s = Next s' \<Longrightarrow> length (all_bees s') = length (all_bees s)"
  by (cases "winnie_thread s"; clarsimp simp add: winnie_step_def pieces split: if_splits)

lemma main_step_length: "main_step s = Next s' \<Longrightarrow> length (all_bees s') = length (all_bees s)"
  by (cases "main_thread s"; clarsimp simp add: main_step_def pieces split: if_splits)

lemma spurious_length: "spurious t s = Next s' \<Longrightarrow> length (all_bees s') = length (all_bees s)"
  by (cases t; clarsimp simp add: spurious_def pieces split: if_splits)

lemma step_length: "step a s = Next s' \<Longrightarrow> length (all_bees s') = length (all_bees s)"
proof (cases a)
  case (Run t r)
  assume "step a s = Next s'"
  with Run show ?thesis
    by (cases t) (auto dest: bee_step_length hive_step_length winnie_step_length main_step_length)
next
  case (Spurious t)
  assume "step a s = Next s'"
  with Spurious show ?thesis by (auto dest: spurious_length)
qed

lemma bee_step_enabled: "bee_step i s = Next s' \<Longrightarrow> i < length (all_bees s)"
  by (simp add: bee_step_def split: if_splits)

lemma exec_reachable: "reachable n s \<Longrightarrow> exec as s = Next s' \<Longrightarrow> reachable n s'"
proof (induction as arbitrary: s)
  case Nil
  then show ?case by simp
next
  case (Cons a as)
  then show ?case by (auto split: outcome.splits intro: reachable_step)
qed

lemma reachable_length: "reachable n s \<Longrightarrow> length (all_bees s) = nat n"
  by (induction rule: reachable.induct) (auto simp: App_ctor_def step_length split: if_splits)

subsection \<open>The mutex invariant is kept by every step\<close>

text \<open>
  Each thread's step is taken apart by its control point; the state after the step is then
  explicit, and the invariant is rewritten on it. The part of the invariant that speaks of
  one bee is proved for the bee that moves and, separately, for any other bee.
\<close>

lemmas lock_defs = glob_lock_def bee_lock_def kMaxHoneyCount_def

lemma bee_step_glob_lock:
  "glob_lock s \<Longrightarrow> bee_lock s i \<Longrightarrow> bee_step i s = Next s' \<Longrightarrow> glob_lock s'"
  apply (cases "bee_thread (all_bees s ! i)";
      clarsimp simp add: bee_step_def Let_def pieces split: if_splits)
  apply (simp_all add: lock_defs nth_list_update)
  apply (clarsimp | force)+
  done

lemma bee_step_bee_lock_own:
  "glob_lock s \<Longrightarrow> bee_lock s i \<Longrightarrow> bee_step i s = Next s' \<Longrightarrow> bee_lock s' i"
  apply (cases "bee_thread (all_bees s ! i)";
      clarsimp simp add: bee_step_def Let_def pieces split: if_splits)
  apply (simp_all add: lock_defs)
  done

lemma bee_step_bee_lock_other:
  "glob_lock s \<Longrightarrow> bee_lock s i \<Longrightarrow> bee_lock s j \<Longrightarrow> j < length (all_bees s) \<Longrightarrow> j \<noteq> i \<Longrightarrow>
   bee_step i s = Next s' \<Longrightarrow> bee_lock s' j"
  apply (cases "bee_thread (all_bees s ! i)";
      clarsimp simp add: bee_step_def Let_def pieces split: if_splits)
  apply (simp_all add: lock_defs)
  apply (clarsimp | force)+
  done

lemma hive_step_glob_lock:
  "glob_lock s \<Longrightarrow> hive_step r s = Next s' \<Longrightarrow> glob_lock s'"
  apply (cases "hive_thread s"; clarsimp simp add: hive_step_def pieces split: if_splits list.splits)
  apply (simp_all add: lock_defs nth_list_update)
  apply (clarsimp | force)+
  done

lemma hive_step_bee_lock:
  "glob_lock s \<Longrightarrow> bee_lock s j \<Longrightarrow> j < length (all_bees s) \<Longrightarrow>
   hive_step r s = Next s' \<Longrightarrow> bee_lock s' j"
  apply (cases "hive_thread s"; clarsimp simp add: hive_step_def pieces split: if_splits list.splits)
  apply (simp_all add: lock_defs nth_list_update)
  apply (clarsimp | force)+
  done

lemma winnie_step_glob_lock:
  "glob_lock s \<Longrightarrow> winnie_step s = Next s' \<Longrightarrow> glob_lock s'"
  apply (cases "winnie_thread s"; clarsimp simp add: winnie_step_def pieces split: if_splits)
  apply (simp_all add: lock_defs)
  apply (clarsimp | force)+
  done

lemma winnie_step_bee_lock:
  "glob_lock s \<Longrightarrow> bee_lock s j \<Longrightarrow> winnie_step s = Next s' \<Longrightarrow> bee_lock s' j"
  apply (cases "winnie_thread s"; clarsimp simp add: winnie_step_def pieces split: if_splits)
  apply (simp_all add: lock_defs)
  done

lemma main_step_glob_lock:
  "glob_lock s \<Longrightarrow> main_step s = Next s' \<Longrightarrow> glob_lock s'"
  apply (cases "main_thread s"; clarsimp simp add: main_step_def pieces split: if_splits)
  apply (simp_all add: lock_defs nth_list_update)
  apply (clarsimp | force)+
  done

lemma main_step_bee_lock:
  "glob_lock s \<Longrightarrow> bee_lock s j \<Longrightarrow> j < length (all_bees s) \<Longrightarrow> main_step s = Next s' \<Longrightarrow>
   bee_lock s' j"
  apply (cases "main_thread s"; clarsimp simp add: main_step_def pieces split: if_splits)
  apply (simp_all add: lock_defs nth_list_update)
  apply (clarsimp | force)+
  done

lemma spurious_glob_lock:
  "glob_lock s \<Longrightarrow> spurious t s = Next s' \<Longrightarrow> glob_lock s'"
  apply (cases t; clarsimp simp add: spurious_def pieces split: if_splits)
  apply (simp_all add: lock_defs nth_list_update)
  done

lemma spurious_bee_lock:
  "bee_lock s j \<Longrightarrow> j < length (all_bees s) \<Longrightarrow> spurious t s = Next s' \<Longrightarrow> bee_lock s' j"
  apply (cases t; clarsimp simp add: spurious_def pieces split: if_splits)
  apply (simp_all add: lock_defs nth_list_update)
  apply (clarsimp | force)+
  done

lemma lock_inv_step:
  assumes "lock_inv s" "step a s = Next s'"
  shows "lock_inv s'"
proof -
  have g: "glob_lock s" and b: "\<And>j. j < length (all_bees s) \<Longrightarrow> bee_lock s j"
    using assms(1) by (auto simp: lock_inv_def)
  have len: "length (all_bees s') = length (all_bees s)" using assms(2) by (rule step_length)
  show ?thesis
  proof (cases a)
    case (Spurious t)
    with assms(2) have st: "spurious t s = Next s'" by simp
    show ?thesis
      unfolding lock_inv_def using spurious_glob_lock [OF g st] spurious_bee_lock [OF b _ st] len
      by simp
  next
    case (Run t r)
    show ?thesis
    proof (cases t)
      case MainT
      with Run assms(2) have st: "main_step s = Next s'" by simp
      show ?thesis
        unfolding lock_inv_def
        using main_step_glob_lock [OF g st] main_step_bee_lock [OF g b _ st] len by simp
    next
      case HiveT
      with Run assms(2) have st: "hive_step r s = Next s'" by simp
      show ?thesis
        unfolding lock_inv_def
        using hive_step_glob_lock [OF g st] hive_step_bee_lock [OF g b _ st] len by simp
    next
      case (BeeT i)
      with Run assms(2) have st: "bee_step i s = Next s'" by simp
      have i: "i < length (all_bees s)" using st by (rule bee_step_enabled)
      have g': "glob_lock s'" using bee_step_glob_lock [OF g b [OF i] st] .
      have "bee_lock s' j" if j: "j < length (all_bees s)" for j
      proof (cases "j = i")
        case True
        then show ?thesis using bee_step_bee_lock_own [OF g b [OF i] st] by simp
      next
        case False
        then show ?thesis using bee_step_bee_lock_other [OF g b [OF i] b [OF j] j _ st] by simp
      qed
      with g' len show ?thesis by (simp add: lock_inv_def)
    next
      case WinnieT
      with Run assms(2) have st: "winnie_step s = Next s'" by simp
      show ?thesis
        unfolding lock_inv_def
        using winnie_step_glob_lock [OF g st] winnie_step_bee_lock [OF g b st] len by simp
    qed
  qed
qed

lemma App_ctor_lock_inv: "App_ctor n = Some s \<Longrightarrow> lock_inv s"
  by (auto simp: lock_inv_def glob_lock_def bee_lock_def App_ctor_def Bee_ctor_def
      kMaxHoneyCount_def split: if_splits)

lemma reachable_lock_inv: "reachable n s \<Longrightarrow> lock_inv s"
  by (induction rule: reachable.induct) (auto intro: App_ctor_lock_inv lock_inv_step)

subsection \<open>The population invariant is kept by every step\<close>

lemmas pop_defs = glob_pop_def bee_pop_def in_transit_def

lemma bee_step_glob_pop:
  "glob_pop s \<Longrightarrow> bee_pop s i \<Longrightarrow> bee_step i s = Next s' \<Longrightarrow> glob_pop s'"
  apply (cases "bee_thread (all_bees s ! i)";
      clarsimp simp add: bee_step_def Let_def pieces split: if_splits)
  apply (simp_all add: pop_defs nth_list_update)
  done

lemma bee_step_bee_pop_own:
  "glob_pop s \<Longrightarrow> bee_pop s i \<Longrightarrow> bee_step i s = Next s' \<Longrightarrow> bee_pop s' i"
  apply (cases "bee_thread (all_bees s ! i)";
      clarsimp simp add: bee_step_def Let_def pieces split: if_splits)
  apply (simp_all add: pop_defs)
  apply (clarsimp | force)+
  done

lemma bee_step_bee_pop_other:
  "glob_pop s \<Longrightarrow> bee_pop s i \<Longrightarrow> bee_pop s j \<Longrightarrow> j < length (all_bees s) \<Longrightarrow> j \<noteq> i \<Longrightarrow>
   bee_step i s = Next s' \<Longrightarrow> bee_pop s' j"
  apply (cases "bee_thread (all_bees s ! i)";
      clarsimp simp add: bee_step_def Let_def pieces split: if_splits)
  apply (simp_all add: pop_defs)
  done

lemma hive_step_glob_pop:
  "glob_pop s \<Longrightarrow> (next_bee s' < length (all_bees s) \<longrightarrow> bee_pop s (next_bee s')) \<Longrightarrow>
   hive_step r s = Next s' \<Longrightarrow> glob_pop s'"
  apply (cases "hive_thread s"; clarsimp simp add: hive_step_def pieces split: if_splits list.splits)
  apply (simp_all add: pop_defs nth_list_update)
  apply (clarsimp | force)+
  done

lemma hive_step_bee_pop_own:
  "glob_pop s \<Longrightarrow> bee_pop s (next_bee s') \<Longrightarrow> hive_step r s = Next s' \<Longrightarrow>
   bee_pop s' (next_bee s')"
  apply (cases "hive_thread s"; clarsimp simp add: hive_step_def pieces split: if_splits list.splits)
  apply (simp_all add: pop_defs)
  apply (clarsimp | force)+
  done

lemma hive_step_bee_pop_other:
  "glob_pop s \<Longrightarrow> bee_pop s j \<Longrightarrow> j \<noteq> next_bee s' \<Longrightarrow> hive_step r s = Next s' \<Longrightarrow> bee_pop s' j"
  apply (cases "hive_thread s"; clarsimp simp add: hive_step_def pieces split: if_splits list.splits)
  apply (simp_all add: pop_defs)
  done

lemma winnie_step_glob_pop:
  "glob_pop s \<Longrightarrow> winnie_step s = Next s' \<Longrightarrow> glob_pop s'"
  apply (cases "winnie_thread s"; clarsimp simp add: winnie_step_def pieces split: if_splits)
  apply (simp_all add: pop_defs)
  done

lemma winnie_step_bee_pop:
  "bee_pop s j \<Longrightarrow> winnie_step s = Next s' \<Longrightarrow> bee_pop s' j"
  apply (cases "winnie_thread s"; clarsimp simp add: winnie_step_def pieces split: if_splits)
  apply (simp_all add: pop_defs)
  done

lemma main_step_glob_pop:
  "glob_pop s \<Longrightarrow> main_step s = Next s' \<Longrightarrow> glob_pop s'"
  apply (cases "main_thread s"; clarsimp simp add: main_step_def pieces split: if_splits)
  apply (simp_all add: pop_defs nth_list_update)
  done

lemma main_step_bee_pop:
  "glob_pop s \<Longrightarrow> bee_pop s j \<Longrightarrow> j < length (all_bees s) \<Longrightarrow> main_step s = Next s' \<Longrightarrow>
   bee_pop s' j"
  apply (cases "main_thread s"; clarsimp simp add: main_step_def pieces split: if_splits)
  apply (simp_all add: pop_defs nth_list_update)
  apply clarsimp+
  done

lemma spurious_glob_pop:
  "glob_pop s \<Longrightarrow> spurious t s = Next s' \<Longrightarrow> glob_pop s'"
  apply (cases t; clarsimp simp add: spurious_def pieces split: if_splits)
  apply (simp_all add: pop_defs nth_list_update)
  done

lemma spurious_bee_pop:
  "bee_pop s j \<Longrightarrow> j < length (all_bees s) \<Longrightarrow> spurious t s = Next s' \<Longrightarrow> bee_pop s' j"
  apply (cases t; clarsimp simp add: spurious_def pieces split: if_splits)
  apply (simp_all add: pop_defs nth_list_update)
  apply clarsimp+
  done

lemma pop_inv_step:
  assumes "pop_inv s" "step a s = Next s'"
  shows "pop_inv s'"
proof -
  have g: "glob_pop s" and b: "\<And>j. j < length (all_bees s) \<Longrightarrow> bee_pop s j"
    using assms(1) by (auto simp: pop_inv_def)
  have len: "length (all_bees s') = length (all_bees s)" using assms(2) by (rule step_length)
  show ?thesis
  proof (cases a)
    case (Spurious t)
    with assms(2) have st: "spurious t s = Next s'" by simp
    show ?thesis
      unfolding pop_inv_def using spurious_glob_pop [OF g st] spurious_bee_pop [OF b _ st] len
      by simp
  next
    case (Run t r)
    show ?thesis
    proof (cases t)
      case MainT
      with Run assms(2) have st: "main_step s = Next s'" by simp
      show ?thesis
        unfolding pop_inv_def
        using main_step_glob_pop [OF g st] main_step_bee_pop [OF g b _ st] len by simp
    next
      case HiveT
      with Run assms(2) have st: "hive_step r s = Next s'" by simp
      have g': "glob_pop s'" using g st b by (intro hive_step_glob_pop [of s s' r]) auto
      have "bee_pop s' j" if j: "j < length (all_bees s)" for j
      proof (cases "j = next_bee s'")
        case True
        with j show ?thesis using hive_step_bee_pop_own [OF g b st] by simp
      next
        case False
        then show ?thesis using hive_step_bee_pop_other [OF g b [OF j] _ st] by simp
      qed
      with g' len show ?thesis by (simp add: pop_inv_def)
    next
      case (BeeT i)
      with Run assms(2) have st: "bee_step i s = Next s'" by simp
      have i: "i < length (all_bees s)" using st by (rule bee_step_enabled)
      have g': "glob_pop s'" using bee_step_glob_pop [OF g b [OF i] st] .
      have "bee_pop s' j" if j: "j < length (all_bees s)" for j
      proof (cases "j = i")
        case True
        then show ?thesis using bee_step_bee_pop_own [OF g b [OF i] st] by simp
      next
        case False
        then show ?thesis using bee_step_bee_pop_other [OF g b [OF i] b [OF j] j _ st] by simp
      qed
      with g' len show ?thesis by (simp add: pop_inv_def)
    next
      case WinnieT
      with Run assms(2) have st: "winnie_step s = Next s'" by simp
      show ?thesis
        unfolding pop_inv_def
        using winnie_step_glob_pop [OF g st] winnie_step_bee_pop [OF b st] len by simp
    qed
  qed
qed

lemma App_ctor_pop_inv: "App_ctor n = Some s \<Longrightarrow> pop_inv s"
  by (auto simp: pop_inv_def glob_pop_def bee_pop_def in_transit_def App_ctor_def Bee_ctor_def
      split: if_splits)

lemma reachable_pop_inv: "reachable n s \<Longrightarrow> pop_inv s"
  by (induction rule: reachable.induct) (auto intro: App_ctor_pop_inv pop_inv_step)

subsection \<open>Counting the bees\<close>

lemma three_way_partition:
  "(\<And>x. x \<in> set xs \<Longrightarrow>
      (P x \<and> \<not> Q x \<and> \<not> R x) \<or> (\<not> P x \<and> Q x \<and> \<not> R x) \<or> (\<not> P x \<and> \<not> Q x \<and> R x)) \<Longrightarrow>
   length (filter P xs) + length (filter Q xs) + length (filter R xs) = length xs"
proof (induction xs)
  case Nil
  then show ?case by simp
next
  case (Cons x xs)
  have "length (filter P xs) + length (filter Q xs) + length (filter R xs) = length xs"
    using Cons by simp
  moreover have
    "(P x \<and> \<not> Q x \<and> \<not> R x) \<or> (\<not> P x \<and> Q x \<and> \<not> R x) \<or> (\<not> P x \<and> \<not> Q x \<and> R x)"
    using Cons.prems by simp
  ultimately show ?case by auto
qed

lemma length_filter_member:
  assumes "distinct q" "\<forall>b \<in> set q. b < n"
  shows "length (filter (\<lambda>j. j \<in> set q) [0..<n]) = length q"
proof -
  have "length (filter (\<lambda>j. j \<in> set q) [0..<n]) = card {i. i < n \<and> [0..<n] ! i \<in> set q}"
    by (simp add: length_filter_conv_card)
  also have "{i. i < n \<and> [0..<n] ! i \<in> set q} = set q" using assms(2) by auto
  also have "card (set q) = length q" using assms(1) by (rule distinct_card)
  finally show ?thesis .
qed

lemma hunting_count_index:
  "hunting_count s
     = length (filter (\<lambda>j. \<not> at_home (all_bees s ! j)) [0..<length (all_bees s)])"
proof -
  have "all_bees s = map (\<lambda>j. all_bees s ! j) [0..<length (all_bees s)]"
    by (simp add: map_nth)
  then have "filter (\<lambda>b. \<not> at_home b) (all_bees s)
      = filter (\<lambda>b. \<not> at_home b) (map (\<lambda>j. all_bees s ! j) [0..<length (all_bees s)])"
    by simp
  then show ?thesis
    unfolding hunting_count_def by (simp add: filter_map o_def)
qed

lemma pop_inv_count:
  assumes "pop_inv s"
  shows "present_count s + hunting_count s + transit_count s = length (all_bees s)"
proof -
  let ?n = "length (all_bees s)"
  have g: "glob_pop s" and b: "\<And>j. j < ?n \<Longrightarrow> bee_pop s j"
    using assms by (auto simp: pop_inv_def)
  have q: "present_count s
      = length (filter (\<lambda>j. j \<in> set (bees_currently_in_hive s)) [0..<?n])"
    using g by (simp add: present_count_def glob_pop_def length_filter_member)
  have part:
    "(j \<in> set (bees_currently_in_hive s) \<and> \<not> \<not> at_home (all_bees s ! j) \<and> \<not> in_transit s j) \<or>
     (j \<notin> set (bees_currently_in_hive s) \<and> \<not> at_home (all_bees s ! j) \<and> \<not> in_transit s j) \<or>
     (j \<notin> set (bees_currently_in_hive s) \<and> \<not> \<not> at_home (all_bees s ! j) \<and> in_transit s j)"
    if "j \<in> set [0..<?n]" for j
  proof -
    from that have j: "j < ?n" by simp
    show ?thesis using b [OF j] g unfolding bee_pop_def glob_pop_def in_transit_def by blast
  qed
  have "length (filter (\<lambda>j. j \<in> set (bees_currently_in_hive s)) [0..<?n])
      + length (filter (\<lambda>j. \<not> at_home (all_bees s ! j)) [0..<?n])
      + length (filter (in_transit s) [0..<?n]) = length [0..<?n]"
    by (rule three_way_partition) (use part in blast)
  then show ?thesis by (simp add: q hunting_count_index transit_count_def)
qed

lemma quiescent_transit_count: "quiescent s \<Longrightarrow> transit_count s = 0"
  by (auto simp: quiescent_def transit_count_def in_transit_def list_all_length filter_empty_conv)

subsection \<open>Which steps change the honey, which shorten the queue\<close>

lemma bee_step_honey:
  "bee_step i s = Next s' \<Longrightarrow>
   honey_count s' = honey_count s \<or>
   (bee_thread (all_bees s ! i) = B_RetIncr \<and> honey_count s' = honey_count s + 1)"
  by (cases "bee_thread (all_bees s ! i)";
      clarsimp simp add: bee_step_def Let_def pieces split: if_splits)

lemma hive_step_honey: "hive_step r s = Next s' \<Longrightarrow> honey_count s' = honey_count s"
  by (cases "hive_thread s"; clarsimp simp add: hive_step_def pieces split: if_splits list.splits)

lemma main_step_honey: "main_step s = Next s' \<Longrightarrow> honey_count s' = honey_count s"
  by (cases "main_thread s"; clarsimp simp add: main_step_def pieces split: if_splits)

lemma spurious_honey: "spurious t s = Next s' \<Longrightarrow> honey_count s' = honey_count s"
  by (cases t; clarsimp simp add: spurious_def pieces split: if_splits)

lemma winnie_step_honey:
  "winnie_step s = Next s' \<Longrightarrow>
   honey_count s' = honey_count s \<or> (winnie_thread s = W_TryReset \<and> honey_count s' = 0)"
  by (cases "winnie_thread s"; clarsimp simp add: winnie_step_def pieces split: if_splits)

lemma step_honey:
  assumes "step a s = Next s'"
  shows "honey_count s' = honey_count s \<or>
     (\<exists>i r. a = Run (BeeT i) r \<and> i < length (all_bees s) \<and>
        bee_thread (all_bees s ! i) = B_RetIncr \<and> honey_count s' = honey_count s + 1) \<or>
     (\<exists>r. a = Run WinnieT r \<and> winnie_thread s = W_TryReset \<and> honey_count s' = 0)"
proof (cases a)
  case (Spurious t)
  with assms show ?thesis by (auto dest: spurious_honey)
next
  case (Run t r)
  show ?thesis
  proof (cases t)
    case MainT
    with Run assms show ?thesis by (auto dest: main_step_honey)
  next
    case HiveT
    with Run assms show ?thesis by (auto dest: hive_step_honey)
  next
    case (BeeT i)
    with Run assms have st: "bee_step i s = Next s'" by simp
    show ?thesis using bee_step_honey [OF st] bee_step_enabled [OF st] Run BeeT by auto
  next
    case WinnieT
    with Run assms show ?thesis by (auto dest: winnie_step_honey)
  qed
qed

lemma bee_step_queue:
  "bee_step i s = Next s' \<Longrightarrow>
   length (bees_currently_in_hive s) \<le> length (bees_currently_in_hive s')"
  by (cases "bee_thread (all_bees s ! i)";
      clarsimp simp add: bee_step_def Let_def pieces split: if_splits)

lemma hive_step_queue:
  "hive_step r s = Next s' \<Longrightarrow>
   bees_currently_in_hive s' = bees_currently_in_hive s \<or>
   (hive_thread s = H_RelPop \<and>
    bees_currently_in_hive s = next_bee s' # bees_currently_in_hive s')"
  by (cases "hive_thread s"; clarsimp simp add: hive_step_def pieces split: if_splits list.splits)

lemma main_step_queue:
  "main_step s = Next s' \<Longrightarrow> bees_currently_in_hive s' = bees_currently_in_hive s"
  by (cases "main_thread s"; clarsimp simp add: main_step_def pieces split: if_splits)

lemma spurious_queue:
  "spurious t s = Next s' \<Longrightarrow> bees_currently_in_hive s' = bees_currently_in_hive s"
  by (cases t; clarsimp simp add: spurious_def pieces split: if_splits)

lemma winnie_step_queue:
  "winnie_step s = Next s' \<Longrightarrow> bees_currently_in_hive s' = bees_currently_in_hive s"
  by (cases "winnie_thread s"; clarsimp simp add: winnie_step_def pieces split: if_splits)

lemma step_queue_shrinks:
  assumes "step a s = Next s'"
    "length (bees_currently_in_hive s') < length (bees_currently_in_hive s)"
  shows "(\<exists>r. a = Run HiveT r) \<and> hive_thread s = H_RelPop \<and>
     bees_currently_in_hive s = next_bee s' # bees_currently_in_hive s'"
proof (cases a)
  case (Spurious t)
  with assms show ?thesis by (auto dest: spurious_queue)
next
  case (Run t r)
  show ?thesis
  proof (cases t)
    case MainT
    with Run assms show ?thesis by (auto dest: main_step_queue)
  next
    case HiveT
    with Run assms show ?thesis by (auto dest: hive_step_queue)
  next
    case (BeeT i)
    with Run assms show ?thesis by (auto dest: bee_step_queue)
  next
    case WinnieT
    with Run assms show ?thesis by (auto dest: winnie_step_queue)
  qed
qed

text \<open>No step runs into \<^verbatim>\<open>front()\<close> of an empty queue or a dangling \<^verbatim>\<open>next\<close>.\<close>

lemma hive_step_defined: "glob_pop s \<Longrightarrow> hive_step r s \<noteq> Undefined"
  by (cases "hive_thread s";
      clarsimp simp add: hive_step_def glob_pop_def pieces split: if_splits list.splits)

lemma bee_step_defined: "bee_step i s \<noteq> Undefined"
  by (cases "bee_thread (all_bees s ! i)";
      clarsimp simp add: bee_step_def Let_def pieces split: if_splits)

lemma winnie_step_defined: "winnie_step s \<noteq> Undefined"
  by (cases "winnie_thread s"; clarsimp simp add: winnie_step_def pieces split: if_splits)

lemma main_step_defined: "main_step s \<noteq> Undefined"
  by (cases "main_thread s"; clarsimp simp add: main_step_def pieces split: if_splits)

lemma spurious_defined: "spurious t s \<noteq> Undefined"
  by (cases t; clarsimp simp add: spurious_def pieces split: if_splits)

lemma step_defined: "pop_inv s \<Longrightarrow> step a s \<noteq> Undefined"
proof (cases a)
  case (Spurious t)
  then show ?thesis by (simp add: spurious_defined)
next
  case (Run t r)
  assume "pop_inv s"
  with Run show ?thesis
    by (cases t) (simp_all add: hive_step_defined bee_step_defined winnie_step_defined
        main_step_defined pop_inv_def)
qed

subsection \<open>The concrete states are reachable\<close>

lemma reachable_running_state: "reachable 3 running_state"
proof -
  have "App_ctor 3 = Some (the (App_ctor 3))" by (simp add: App_ctor_def)
  then have "reachable 3 (the (App_ctor 3))" by (rule reachable_init)
  moreover have "exec sched_start (the (App_ctor 3)) = Next running_state" by code_simp
  ultimately show ?thesis by (rule exec_reachable)
qed

lemma reachable_pop_state: "reachable 3 pop_state"
proof -
  have "exec (replicate 7 (Run HiveT 900)) running_state = Next pop_state" by code_simp
  with reachable_running_state show ?thesis by (rule exec_reachable)
qed

lemma reachable_released_state: "reachable 3 released_state"
proof -
  have "exec sched_release running_state = Next released_state" by code_simp
  with reachable_running_state show ?thesis by (rule exec_reachable)
qed

lemma reachable_overlap_state: "reachable 3 overlap_state"
proof -
  have "exec sched_overlap running_state = Next overlap_state" by code_simp
  with reachable_running_state show ?thesis by (rule exec_reachable)
qed

lemma reachable_incr_state: "reachable 3 incr_state"
proof -
  have "exec (replicate 2 (Run (BeeT 0) 0)) overlap_state = Next incr_state" by code_simp
  with reachable_overlap_state show ?thesis by (rule exec_reachable)
qed

lemma reachable_full_hive_state: "reachable 3 full_hive_state"
proof -
  have "exec (sched_fill @ replicate 2 (Run WinnieT 0)) running_state = Next full_hive_state"
    by code_simp
  with reachable_running_state show ?thesis by (rule exec_reachable)
qed

lemma reachable_weak_hive_state: "reachable 3 weak_hive_state"
proof -
  have "exec (sched_fill @ sched_release @ replicate 2 (Run WinnieT 0)) running_state
      = Next weak_hive_state"
    by code_simp
  with reachable_running_state show ?thesis by (rule exec_reachable)
qed

subsection \<open>What the other threads can do while Winnie holds the lock\<close>

lemma hive_step_winnie_frame:
  "glob_lock s \<Longrightarrow> winnie_cs (winnie_thread s) \<Longrightarrow> hive_step r s = Next s' \<Longrightarrow>
   bees_currently_in_hive s' = bees_currently_in_hive s \<and> honey_count s' = honey_count s"
  apply (cases "hive_thread s"; clarsimp simp add: hive_step_def pieces split: if_splits list.splits)
  apply (simp_all add: lock_defs)
  apply (clarsimp | force)+
  done

lemma bee_step_winnie_frame:
  "glob_lock s \<Longrightarrow> bee_lock s i \<Longrightarrow> winnie_cs (winnie_thread s) \<Longrightarrow> bee_step i s = Next s' \<Longrightarrow>
   bees_currently_in_hive s' = bees_currently_in_hive s \<and> honey_count s' = honey_count s"
  apply (cases "bee_thread (all_bees s ! i)";
      clarsimp simp add: bee_step_def Let_def pieces split: if_splits)
  apply (simp_all add: lock_defs)
  done

lemma main_step_winnie_pc:
  "glob_lock s \<Longrightarrow> winnie_thread s \<noteq> W_NotStarted \<Longrightarrow> winnie_thread s \<noteq> W_Parked \<Longrightarrow>
   main_step s = Next s' \<Longrightarrow> winnie_thread s' = winnie_thread s"
  apply (cases "main_thread s"; clarsimp simp add: main_step_def pieces split: if_splits)
  apply (simp_all add: lock_defs)
  done

lemma spurious_winnie_pc:
  "winnie_thread s \<noteq> W_Parked \<Longrightarrow> spurious t s = Next s' \<Longrightarrow>
   winnie_thread s' = winnie_thread s"
  by (cases t; clarsimp simp add: spurious_def pieces split: if_splits)

lemma hive_step_winnie_pc:
  "winnie_thread s \<noteq> W_Parked \<Longrightarrow> hive_step r s = Next s' \<Longrightarrow>
   winnie_thread s' = winnie_thread s"
  by (cases "hive_thread s"; clarsimp simp add: hive_step_def pieces split: if_splits list.splits)

lemma bee_step_winnie_pc:
  "winnie_thread s \<noteq> W_Parked \<Longrightarrow> bee_step i s = Next s' \<Longrightarrow>
   winnie_thread s' = winnie_thread s"
  by (cases "bee_thread (all_bees s ! i)";
      clarsimp simp add: bee_step_def Let_def pieces split: if_splits)

lemma other_step_winnie_pc:
  assumes "lock_inv s" "step a s = Next s'" "\<not> is_winnie_run a"
    "winnie_thread s \<noteq> W_NotStarted" "winnie_thread s \<noteq> W_Parked"
  shows "winnie_thread s' = winnie_thread s"
proof -
  have g: "glob_lock s" using assms(1) by (simp add: lock_inv_def)
  show ?thesis
  proof (cases a)
    case (Spurious t)
    with assms show ?thesis using spurious_winnie_pc [of s t s'] by simp
  next
    case (Run t r)
    with assms g show ?thesis
      by (cases t) (auto dest: main_step_winnie_pc hive_step_winnie_pc bee_step_winnie_pc)
  qed
qed

lemma other_step_winnie_frame:
  assumes "lock_inv s" "step a s = Next s'" "\<not> is_winnie_run a" "winnie_cs (winnie_thread s)"
  shows "bees_currently_in_hive s' = bees_currently_in_hive s \<and> honey_count s' = honey_count s"
proof -
  have g: "glob_lock s" and b: "\<And>j. j < length (all_bees s) \<Longrightarrow> bee_lock s j"
    using assms(1) by (auto simp: lock_inv_def)
  show ?thesis
  proof (cases a)
    case (Spurious t)
    with assms show ?thesis by (auto dest: spurious_queue spurious_honey)
  next
    case (Run t r)
    show ?thesis
    proof (cases t)
      case MainT
      with Run assms show ?thesis by (auto dest: main_step_queue main_step_honey)
    next
      case HiveT
      with Run assms g show ?thesis using hive_step_winnie_frame [of s r s'] by simp
    next
      case (BeeT i)
      with Run assms have st: "bee_step i s = Next s'" by simp
      have "i < length (all_bees s)" using st by (rule bee_step_enabled)
      then show ?thesis using bee_step_winnie_frame [OF g b assms(4) st] by simp
    next
      case WinnieT
      with Run assms show ?thesis by simp
    qed
  qed
qed

lemma step_stop_mono: "step a s = Next s' \<Longrightarrow> winnie_stop_signal s \<Longrightarrow> winnie_stop_signal s'"
proof (cases a)
  case (Spurious t)
  assume "step a s = Next s'" "winnie_stop_signal s"
  with Spurious show ?thesis by (cases t; clarsimp simp add: spurious_def pieces split: if_splits)
next
  case (Run t r)
  assume *: "step a s = Next s'" "winnie_stop_signal s"
  show ?thesis
  proof (cases t)
    case MainT
    with Run * show ?thesis
      by (cases "main_thread s"; clarsimp simp add: main_step_def pieces split: if_splits)
  next
    case HiveT
    with Run * show ?thesis
      by (cases "hive_thread s";
          clarsimp simp add: hive_step_def pieces split: if_splits list.splits)
  next
    case (BeeT i)
    with Run * show ?thesis
      by (cases "bee_thread (all_bees s ! i)";
          clarsimp simp add: bee_step_def Let_def pieces split: if_splits)
  next
    case WinnieT
    with Run * show ?thesis
      by (cases "winnie_thread s"; clarsimp simp add: winnie_step_def pieces split: if_splits)
  qed
qed

lemma exec_stop_mono: "exec as s = Next s' \<Longrightarrow> winnie_stop_signal s \<Longrightarrow> winnie_stop_signal s'"
proof (induction as arbitrary: s)
  case Nil
  then show ?case by simp
next
  case (Cons a as)
  then show ?case by (auto split: outcome.splits dest: step_stop_mono)
qed

subsection \<open>Winnie's attack, step by step, under any interleaving\<close>

lemma raid_path_cs: "k \<le> 7 \<Longrightarrow> winnie_cs (raid_path ! k)"
  by (auto simp: raid_path_def nth_Cons' le_Suc_eq numeral_eq_Suc)

lemma raid_path_running:
  "k \<le> 10 \<Longrightarrow> raid_path ! k \<noteq> W_NotStarted \<and> raid_path ! k \<noteq> W_Parked"
  by (auto simp: raid_path_def nth_Cons' le_Suc_eq numeral_eq_Suc)

lemma retreat_path_cs: "k \<le> 6 \<Longrightarrow> winnie_cs (retreat_path ! k)"
  by (auto simp: retreat_path_def nth_Cons' le_Suc_eq numeral_eq_Suc)

lemma retreat_path_running:
  "k \<le> 8 \<Longrightarrow> retreat_path ! k \<noteq> W_NotStarted \<and> retreat_path ! k \<noteq> W_Parked"
  by (auto simp: retreat_path_def nth_Cons' le_Suc_eq numeral_eq_Suc)

lemma raid_stage_other:
  assumes "raid_stage q h k s" "step a s = Next s'" "\<not> is_winnie_run a"
  shows "raid_stage q h k s'"
proof -
  have inv: "lock_inv s" and k: "k \<le> 10" and pc: "winnie_thread s = raid_path ! k"
    using assms(1) by (auto simp: raid_stage_def)
  have inv': "lock_inv s'" using inv assms(2) by (rule lock_inv_step)
  have pc': "winnie_thread s' = winnie_thread s"
    using other_step_winnie_pc [OF inv assms(2,3)] raid_path_running [OF k] pc by simp
  have "bees_currently_in_hive s' = bees_currently_in_hive s \<and> honey_count s' = honey_count s"
    if "k \<le> 7"
    using other_step_winnie_frame [OF inv assms(2,3)] raid_path_cs [OF that] pc by simp
  then show ?thesis using assms(1) inv' pc' by (auto simp: raid_stage_def)
qed

lemma raid_stage_winnie:
  assumes "raid_stage q h k s" "winnie_step s = Next s'" "\<not> winnie_stop_signal s'"
    "15 \<le> h" "length q < 3" "k < 10"
  shows "raid_stage q h (Suc k) s'"
proof -
  have inv: "lock_inv s" using assms(1) by (simp add: raid_stage_def)
  have inv': "lock_inv s'"
    using inv assms(2) by (intro lock_inv_step [of s "Run WinnieT 0" s']) simp_all
  have "k = 0 \<or> k = 1 \<or> k = 2 \<or> k = 3 \<or> k = 4 \<or> k = 5 \<or> k = 6 \<or> k = 7 \<or> k = 8 \<or> k = 9"
    using assms(6) by arith
  then show ?thesis
    using assms(1-5) inv'
    by (elim disjE;
        clarsimp simp add: raid_stage_def raid_path_def winnie_step_def pieces split: if_splits)
qed

lemma raid_stage_exec:
  assumes "exec as s = Next s'" "raid_stage q h k s" "\<not> winnie_stop_signal s'"
    "15 \<le> h" "length q < 3" "k + winnie_runs as \<le> 10"
  shows "raid_stage q h (k + winnie_runs as) s'"
  using assms
proof (induction as arbitrary: s k)
  case Nil
  then show ?case by (simp add: winnie_runs_def)
next
  case (Cons a as)
  from Cons.prems(1) obtain s1 where st: "step a s = Next s1" and ex: "exec as s1 = Next s'"
    by (auto split: outcome.splits)
  have ns1: "\<not> winnie_stop_signal s1" using exec_stop_mono [OF ex] Cons.prems(3) by blast
  show ?case
  proof (cases "is_winnie_run a")
    case True
    then obtain r where a: "a = Run WinnieT r" by (cases a rule: is_winnie_run.cases) auto
    have k: "k < 10" and runs: "winnie_runs (a # as) = Suc (winnie_runs as)"
      using Cons.prems(6) True by (auto simp: winnie_runs_def)
    have s1: "raid_stage q h (Suc k) s1"
      using raid_stage_winnie [OF Cons.prems(2) _ ns1 Cons.prems(4,5) k] st a by simp
    have le: "Suc k + winnie_runs as \<le> 10" using Cons.prems(6) runs by simp
    have "raid_stage q h (Suc k + winnie_runs as) s'"
      using Cons.IH [OF ex s1 Cons.prems(3,4,5) le] .
    then show ?thesis using runs by simp
  next
    case False
    then have runs: "winnie_runs (a # as) = winnie_runs as" by (simp add: winnie_runs_def)
    have s1: "raid_stage q h k s1" using raid_stage_other [OF Cons.prems(2) st False] .
    have le: "k + winnie_runs as \<le> 10" using Cons.prems(6) runs by simp
    show ?thesis using Cons.IH [OF ex s1 Cons.prems(3,4,5) le] runs by simp
  qed
qed

lemma retreat_stage_other:
  assumes "retreat_stage q h k s" "step a s = Next s'" "\<not> is_winnie_run a"
  shows "retreat_stage q h k s'"
proof -
  have inv: "lock_inv s" and k: "k \<le> 8" and pc: "winnie_thread s = retreat_path ! k"
    using assms(1) by (auto simp: retreat_stage_def)
  have inv': "lock_inv s'" using inv assms(2) by (rule lock_inv_step)
  have pc': "winnie_thread s' = winnie_thread s"
    using other_step_winnie_pc [OF inv assms(2,3)] retreat_path_running [OF k] pc by simp
  have "bees_currently_in_hive s' = bees_currently_in_hive s \<and> honey_count s' = honey_count s"
    if "k \<le> 6"
    using other_step_winnie_frame [OF inv assms(2,3)] retreat_path_cs [OF that] pc by simp
  then show ?thesis using assms(1) inv' pc' by (auto simp: retreat_stage_def)
qed

lemma retreat_stage_winnie:
  assumes "retreat_stage q h k s" "winnie_step s = Next s'" "\<not> winnie_stop_signal s'"
    "15 \<le> h" "\<not> length q < 3" "k < 8"
  shows "retreat_stage q h (Suc k) s'"
proof -
  have inv: "lock_inv s" using assms(1) by (simp add: retreat_stage_def)
  have inv': "lock_inv s'"
    using inv assms(2) by (intro lock_inv_step [of s "Run WinnieT 0" s']) simp_all
  have "k = 0 \<or> k = 1 \<or> k = 2 \<or> k = 3 \<or> k = 4 \<or> k = 5 \<or> k = 6 \<or> k = 7"
    using assms(6) by arith
  then show ?thesis
    using assms(1-5) inv'
    by (elim disjE;
        clarsimp simp add: retreat_stage_def retreat_path_def winnie_step_def pieces
          split: if_splits)
qed

lemma retreat_stage_exec:
  assumes "exec as s = Next s'" "retreat_stage q h k s" "\<not> winnie_stop_signal s'"
    "15 \<le> h" "\<not> length q < 3" "k + winnie_runs as \<le> 8"
  shows "retreat_stage q h (k + winnie_runs as) s'"
  using assms
proof (induction as arbitrary: s k)
  case Nil
  then show ?case by (simp add: winnie_runs_def)
next
  case (Cons a as)
  from Cons.prems(1) obtain s1 where st: "step a s = Next s1" and ex: "exec as s1 = Next s'"
    by (auto split: outcome.splits)
  have ns1: "\<not> winnie_stop_signal s1" using exec_stop_mono [OF ex] Cons.prems(3) by blast
  show ?case
  proof (cases "is_winnie_run a")
    case True
    then obtain r where a: "a = Run WinnieT r" by (cases a rule: is_winnie_run.cases) auto
    have k: "k < 8" and runs: "winnie_runs (a # as) = Suc (winnie_runs as)"
      using Cons.prems(6) True by (auto simp: winnie_runs_def)
    have s1: "retreat_stage q h (Suc k) s1"
      using retreat_stage_winnie [OF Cons.prems(2) _ ns1 Cons.prems(4,5) k] st a by simp
    have le: "Suc k + winnie_runs as \<le> 8" using Cons.prems(6) runs by simp
    have "retreat_stage q h (Suc k + winnie_runs as) s'"
      using Cons.IH [OF ex s1 Cons.prems(3,4,5) le] .
    then show ?thesis using runs by simp
  next
    case False
    then have runs: "winnie_runs (a # as) = winnie_runs as" by (simp add: winnie_runs_def)
    have s1: "retreat_stage q h k s1" using retreat_stage_other [OF Cons.prems(2) st False] .
    have le: "k + winnie_runs as \<le> 8" using Cons.prems(6) runs by simp
    show ?thesis using Cons.IH [OF ex s1 Cons.prems(3,4,5) le] runs by simp
  qed
qed

subsection \<open>Function-level facts\<close>

lemma Bee_End_eq:
  "i < length (all_bees s) \<Longrightarrow>
   Bee_End i s = s\<lparr>all_bees := (all_bees s)[i := stopped_bee (all_bees s ! i)]\<rparr>"
  unfolding Bee_End_def notify_condition_def set_bee_stop_def upd_bee_def stopped_bee_def
  by (cases "bee_thread (all_bees s ! i) = B_Parked") simp_all

lemma Bee_End_idem: "Bee_End i (Bee_End i s) = Bee_End i s"
proof (cases "i < length (all_bees s)")
  case True
  then show ?thesis by (simp add: Bee_End_eq stopped_bee_def)
next
  case False
  then show ?thesis
    by (simp add: Bee_End_def notify_condition_def set_bee_stop_def upd_bee_def
        list_update_beyond)
qed

lemma list_update_map_take:
  "k < length xs \<Longrightarrow>
   (map f (take k xs) @ drop k xs)[k := f (xs ! k)] = map f (take (Suc k) xs) @ drop (Suc k) xs"
  by (rule nth_equalityI) (auto simp: nth_append nth_list_update less_Suc_eq min_def)

lemma fold_Bee_End_prefix:
  "k \<le> length (all_bees s) \<Longrightarrow>
   fold Bee_End [0..<k] s
     = s\<lparr>all_bees := map stopped_bee (take k (all_bees s)) @ drop k (all_bees s)\<rparr>"
proof (induction k)
  case 0
  then show ?case by simp
next
  case (Suc k)
  then have k: "k < length (all_bees s)" by simp
  with Suc show ?case
    by (simp add: Bee_End_eq nth_append list_update_map_take del: take_Suc_conv_app_nth)
qed

lemma fold_Bee_End:
  "fold Bee_End [0..<length (all_bees s)] s = s\<lparr>all_bees := map stopped_bee (all_bees s)\<rparr>"
  by (simp add: fold_Bee_End_prefix)

lemma stopped_bee_idem: "stopped_bee (stopped_bee b) = stopped_bee b"
  by (simp add: stopped_bee_def)

lemma Hive_End_eq:
  "Hive_End s = s\<lparr>all_bees := map stopped_bee (all_bees s), hive_stop_signal := True,
      hive_thread := (if hive_thread s = H_Parked then H_Woken else hive_thread s),
      winnie_thread := (if winnie_thread s = W_Parked then W_Woken else winnie_thread s)\<rparr>"
  using fold_Bee_End [of "s\<lparr>hive_stop_signal := True\<rparr>"]
  by (simp add: Hive_End_def notify_honey_count_condition_def notify_bee_count_condition_def)

lemma Hive_End_idem: "Hive_End (Hive_End s) = Hive_End s"
  by (simp add: Hive_End_eq stopped_bee_idem)

lemma winnie_steps_TryAttack:
  assumes "winnie_thread s = W_TryAttack" "queue_mutex s = None"
  shows "exec (replicate (if fst (TryAttack s) then 3 else 2) (Run WinnieT r)) s
     = Next ((snd (TryAttack s))\<lparr>winnie_thread :=
          (if fst (TryAttack s) then W_Continue else W_Unlock)\<rparr>)"
  using assms
  by (simp add: TryAttack_def Size_def winnie_step_def numeral_3_eq_3 numeral_2_eq_2)

lemma bee_steps_ReturnOne:
  assumes "b < length (all_bees s)" "bee_thread (all_bees s ! b) = B_RetLock"
    "hive_mutex s = None"
  shows "exec (replicate (if honey_count s < kMaxHoneyCount then 7 else 6) (Run (BeeT b) r)) s
     = Next (upd_bee b (\<lambda>x. x\<lparr>bee_thread := B_Unlock\<rparr>) (ReturnOne b s))"
  using assms
  by (simp add: ReturnOne_def bee_step_def pieces Let_def numeral_eq_Suc)

lemma winnie_step_raiding_frame:
  "winnie_raiding (winnie_thread s) \<Longrightarrow> winnie_step s = Next s' \<Longrightarrow>
   s' = s\<lparr>queue_mutex := queue_mutex s', honey_count := honey_count s',
          winnie_thread := winnie_thread s'\<rparr>"
  by (cases "winnie_thread s"; clarsimp simp add: winnie_step_def pieces split: if_splits)

section \<open>The claims\<close>

text \<open>
  C1. In every reachable state the honey count lies between 0 and \<^verbatim>\<open>kMaxHoneyCount\<close> = 30.
  A step that changes it is either the \<^verbatim>\<open>++honey_count_\<close> of a bee inside \<^verbatim>\<open>ReturnOne\<close>,
  which adds one, or the \<^verbatim>\<open>honey_count_ = 0\<close> of \<^verbatim>\<open>TryAttack\<close>, which Winnie reaches only
  after the size check has succeeded (fewer than three bees in the queue), so that
  \<^verbatim>\<open>TryAttack\<close> returns true.
\<close>

theorem honey_count_bounded:
  assumes "reachable n s"
  shows "0 \<le> honey_count s \<and> honey_count s \<le> 30 \<and>
     (winnie_thread s = W_TryReset \<longrightarrow> Size s < 3) \<and>
     (\<forall>a s'. step a s = Next s' \<longrightarrow>
        honey_count s' = honey_count s \<or>
        (\<exists>i r. a = Run (BeeT i) r \<and> i < length (all_bees s) \<and>
           bee_thread (all_bees s ! i) = B_RetIncr \<and> honey_count s' = honey_count s + 1) \<or>
        (\<exists>r. a = Run WinnieT r \<and> winnie_thread s = W_TryReset \<and> honey_count s' = 0))"
proof -
  have "glob_lock s" using reachable_lock_inv [OF assms] by (simp add: lock_inv_def)
  then have "0 \<le> honey_count s \<and> honey_count s \<le> 30 \<and>
      (winnie_thread s = W_TryReset \<longrightarrow> Size s < 3)"
    by (simp add: glob_lock_def kMaxHoneyCount_def Size_def)
  then show ?thesis using step_honey by blast
qed

theorem honey_count_bounded_witness:
  "reachable 3 incr_state \<and> 0 \<le> honey_count incr_state \<and> honey_count incr_state \<le> 30 \<and>
   map_outcome honey_count (step (Run (BeeT 0) 0) incr_state) = Next (honey_count incr_state + 1)"
proof -
  have "map_outcome honey_count (step (Run (BeeT 0) 0) incr_state)
      = Next (honey_count incr_state + 1)"
    by code_simp
  then show ?thesis
    using honey_count_bounded [OF reachable_incr_state] reachable_incr_state by simp
qed

text \<open>
  C2. In every reachable state of a colony of \<open>n\<close> bees, the bees in the queue, the bees
  that are hunting (\<^verbatim>\<open>at_home_\<close> false) and the bees in transit (popped and not yet sent
  hunting by \<^verbatim>\<open>ReleaseOne\<close>, or back home and not yet pushed by \<^verbatim>\<open>ReturnOne\<close>) add up to
  \<open>n\<close>; when no thread is in the middle of such a transition, queue and hunting bees alone
  add up to \<open>n\<close>.
\<close>

theorem population_invariant:
  assumes "reachable n s"
  shows "length (all_bees s) = nat n \<and>
     present_count s + hunting_count s + transit_count s = nat n \<and>
     (quiescent s \<longrightarrow> present_count s + hunting_count s = nat n)"
proof -
  have len: "length (all_bees s) = nat n" using assms by (rule reachable_length)
  have "present_count s + hunting_count s + transit_count s = length (all_bees s)"
    using reachable_pop_inv [OF assms] by (rule pop_inv_count)
  then show ?thesis using len quiescent_transit_count [of s] by auto
qed

theorem population_invariant_witness:
  "reachable 3 released_state \<and> quiescent released_state \<and>
   present_count released_state = 2 \<and> hunting_count released_state = 1 \<and>
   present_count released_state + hunting_count released_state = nat 3 \<and>
   reachable 3 overlap_state \<and> \<not> quiescent overlap_state \<and>
   present_count overlap_state = 1 \<and> hunting_count overlap_state = 0 \<and>
   present_count overlap_state + hunting_count overlap_state + transit_count overlap_state = nat 3"
proof -
  have "quiescent released_state \<and> present_count released_state = 2 \<and>
      hunting_count released_state = 1 \<and> \<not> quiescent overlap_state \<and>
      present_count overlap_state = 1 \<and> hunting_count overlap_state = 0"
    by code_simp
  then show ?thesis
    using population_invariant [OF reachable_released_state]
      population_invariant [OF reachable_overlap_state]
      reachable_released_state reachable_overlap_state by simp
qed

text \<open>
  C3. \<^verbatim>\<open>TryAttack\<close> returns true exactly when fewer than three bees are in the queue; then
  the state after it is the state before with the honey count set to 0, and when it returns
  false the state is unchanged. Winnie's steps through \<^verbatim>\<open>TryAttack\<close>, run without
  interruption with \<^verbatim>\<open>queue_mutex_\<close> free, compute exactly this function; she goes on to
  \<^verbatim>\<open>continue\<close> on true and to \<^verbatim>\<open>lock.unlock()\<close> on false.
\<close>

theorem TryAttack_checks_size:
  "(fst (TryAttack s) \<longleftrightarrow> present_count s < 3) \<and>
   (fst (TryAttack s) \<longrightarrow> snd (TryAttack s) = s\<lparr>honey_count := 0\<rparr>) \<and>
   (\<not> fst (TryAttack s) \<longrightarrow> snd (TryAttack s) = s) \<and>
   (winnie_thread s = W_TryAttack \<and> queue_mutex s = None \<longrightarrow>
      exec (replicate (if fst (TryAttack s) then 3 else 2) (Run WinnieT r)) s
        = Next ((snd (TryAttack s))\<lparr>winnie_thread :=
             (if fst (TryAttack s) then W_Continue else W_Unlock)\<rparr>))"
proof -
  have "(fst (TryAttack s) \<longleftrightarrow> present_count s < 3) \<and>
      (fst (TryAttack s) \<longrightarrow> snd (TryAttack s) = s\<lparr>honey_count := 0\<rparr>) \<and>
      (\<not> fst (TryAttack s) \<longrightarrow> snd (TryAttack s) = s)"
    by (simp add: TryAttack_def Size_def present_count_def)
  then show ?thesis using winnie_steps_TryAttack [of s r] by blast
qed

theorem TryAttack_checks_size_witness:
  "present_count weak_hive_state < 3 \<and> fst (TryAttack weak_hive_state) \<and>
   snd (TryAttack weak_hive_state) = weak_hive_state\<lparr>honey_count := 0\<rparr> \<and>
   \<not> present_count full_hive_state < 3 \<and> \<not> fst (TryAttack full_hive_state) \<and>
   snd (TryAttack full_hive_state) = full_hive_state \<and>
   winnie_thread (weak_hive_state\<lparr>winnie_thread := W_TryAttack\<rparr>) = W_TryAttack \<and>
   queue_mutex (weak_hive_state\<lparr>winnie_thread := W_TryAttack\<rparr>) = None \<and>
   exec (replicate 3 (Run WinnieT 0)) (weak_hive_state\<lparr>winnie_thread := W_TryAttack\<rparr>)
     = Next ((snd (TryAttack (weak_hive_state\<lparr>winnie_thread := W_TryAttack\<rparr>)))
          \<lparr>winnie_thread := W_Continue\<rparr>)"
proof -
  let ?w = "weak_hive_state\<lparr>winnie_thread := W_TryAttack\<rparr>"
  have weak: "present_count weak_hive_state < 3" by code_simp
  have full: "\<not> present_count full_hive_state < 3" by code_simp
  have w: "present_count ?w < 3" by code_simp
  have pc: "winnie_thread ?w = W_TryAttack \<and> queue_mutex ?w = None" by code_simp
  have 1: "fst (TryAttack weak_hive_state) \<and>
      snd (TryAttack weak_hive_state) = weak_hive_state\<lparr>honey_count := 0\<rparr>"
    using TryAttack_checks_size [of weak_hive_state 0] weak by blast
  have 2: "\<not> fst (TryAttack full_hive_state) \<and> snd (TryAttack full_hive_state) = full_hive_state"
    using TryAttack_checks_size [of full_hive_state 0] full by blast
  have f: "fst (TryAttack ?w) = True"
    using TryAttack_checks_size [of ?w 0] w by blast
  have "exec (replicate (if fst (TryAttack ?w) then 3 else 2) (Run WinnieT 0)) ?w
      = Next ((snd (TryAttack ?w))\<lparr>winnie_thread :=
           (if fst (TryAttack ?w) then W_Continue else W_Unlock)\<rparr>)"
    using TryAttack_checks_size [of ?w 0] pc by blast
  then have 3: "exec (replicate 3 (Run WinnieT 0)) ?w
      = Next ((snd (TryAttack ?w))\<lparr>winnie_thread := W_Continue\<rparr>)"
    by (simp only: f if_True)
  show ?thesis using weak full pc 1 2 3 by blast
qed

text \<open>
  C4. Winnie gets past her wait only with the honey count at 15 or more, or with her stop
  signal set; below 15 and without the stop signal she releases \<^verbatim>\<open>hive_mutex_\<close> and parks.
  When she evaluates the predicate with a count of at least 15, then in every run of the
  program from there in which her stop signal stays unset, whatever the other threads do in
  between: if fewer than three bees are in the queue at that moment, her steps lead through
  \<^verbatim>\<open>Attack\<close> and \<^verbatim>\<open>TryAttack\<close> to \<^verbatim>\<open>continue\<close> (seven steps) with the queue unchanged and
  the honey count 0, and on to the predicate again (ten steps); otherwise they lead to
  \<^verbatim>\<open>lock.unlock()\<close> and \<^verbatim>\<open>Cure()\<close>, which she runs without \<^verbatim>\<open>hive_mutex_\<close>, and to the
  head of the loop, the queue and the honey count being unchanged up to the unlock.
\<close>

theorem raid_threshold:
  assumes "reachable n s"
  shows "(winnie_armed (winnie_thread s) \<longrightarrow> 15 \<le> honey_count s \<or> winnie_stop_signal s) \<and>
     (winnie_thread s = W_Pred \<and> honey_count s < 15 \<and> \<not> winnie_stop_signal s \<longrightarrow>
        exec [Run WinnieT r, Run WinnieT r] s
          = Next (s\<lparr>hive_mutex := None, winnie_thread := W_Parked\<rparr>)) \<and>
     (winnie_thread s = W_Pred \<and> 15 \<le> honey_count s \<and> exec as s = Next s' \<and>
      \<not> winnie_stop_signal s' \<longrightarrow>
        (present_count s < 3 \<and> winnie_runs as \<le> 10 \<longrightarrow>
           winnie_thread s' = raid_path ! winnie_runs as \<and>
           (winnie_runs as \<le> 7 \<longrightarrow> bees_currently_in_hive s' = bees_currently_in_hive s) \<and>
           (winnie_runs as \<le> 6 \<longrightarrow> honey_count s' = honey_count s) \<and>
           (winnie_runs as = 7 \<longrightarrow> honey_count s' = 0)) \<and>
        (\<not> present_count s < 3 \<and> winnie_runs as \<le> 8 \<longrightarrow>
           winnie_thread s' = retreat_path ! winnie_runs as \<and>
           (winnie_runs as \<le> 6 \<longrightarrow>
              bees_currently_in_hive s' = bees_currently_in_hive s \<and>
              honey_count s' = honey_count s) \<and>
           (winnie_runs as = 7 \<longrightarrow> hive_mutex s' \<noteq> Some WinnieT)))"
proof -
  have inv: "lock_inv s" using assms by (rule reachable_lock_inv)
  then have armed: "winnie_armed (winnie_thread s) \<longrightarrow> 15 \<le> honey_count s \<or> winnie_stop_signal s"
    by (simp add: lock_inv_def glob_lock_def)
  have park: "winnie_thread s = W_Pred \<and> honey_count s < 15 \<and> \<not> winnie_stop_signal s \<longrightarrow>
      exec [Run WinnieT r, Run WinnieT r] s
        = Next (s\<lparr>hive_mutex := None, winnie_thread := W_Parked\<rparr>)"
    by (simp add: winnie_step_def)
  have raid: "winnie_thread s' = raid_path ! winnie_runs as \<and>
      (winnie_runs as \<le> 7 \<longrightarrow> bees_currently_in_hive s' = bees_currently_in_hive s) \<and>
      (winnie_runs as \<le> 6 \<longrightarrow> honey_count s' = honey_count s) \<and>
      (winnie_runs as = 7 \<longrightarrow> honey_count s' = 0)"
    if pc: "winnie_thread s = W_Pred" and h: "15 \<le> honey_count s" and ex: "exec as s = Next s'"
      and ns: "\<not> winnie_stop_signal s'" and q: "present_count s < 3"
      and runs: "winnie_runs as \<le> 10"
  proof -
    have "raid_stage (bees_currently_in_hive s) (honey_count s) 0 s"
      using inv pc by (simp add: raid_stage_def raid_path_def)
    then have "raid_stage (bees_currently_in_hive s) (honey_count s) (0 + winnie_runs as) s'"
      using ex ns h q runs
      by (intro raid_stage_exec [of as s s']) (simp_all add: present_count_def)
    then show ?thesis by (simp add: raid_stage_def)
  qed
  have retreat: "winnie_thread s' = retreat_path ! winnie_runs as \<and>
      (winnie_runs as \<le> 6 \<longrightarrow>
         bees_currently_in_hive s' = bees_currently_in_hive s \<and> honey_count s' = honey_count s) \<and>
      (winnie_runs as = 7 \<longrightarrow> hive_mutex s' \<noteq> Some WinnieT)"
    if pc: "winnie_thread s = W_Pred" and h: "15 \<le> honey_count s" and ex: "exec as s = Next s'"
      and ns: "\<not> winnie_stop_signal s'" and q: "\<not> present_count s < 3"
      and runs: "winnie_runs as \<le> 8"
  proof -
    have "retreat_stage (bees_currently_in_hive s) (honey_count s) 0 s"
      using inv pc by (simp add: retreat_stage_def retreat_path_def)
    then have st: "retreat_stage (bees_currently_in_hive s) (honey_count s) (0 + winnie_runs as) s'"
      using ex ns h q runs
      by (intro retreat_stage_exec [of as s s']) (simp_all add: present_count_def)
    have "hive_mutex s' \<noteq> Some WinnieT" if "winnie_runs as = 7"
    proof -
      have "winnie_thread s' = W_Cure"
        using st that by (simp add: retreat_stage_def retreat_path_def)
      moreover have "glob_lock s'" using st by (simp add: retreat_stage_def lock_inv_def)
      ultimately show ?thesis by (simp add: glob_lock_def)
    qed
    then show ?thesis using st by (simp add: retreat_stage_def)
  qed
  show ?thesis using armed park raid retreat by blast
qed

theorem raid_threshold_witness:
  "reachable 3 weak_hive_state \<and> winnie_thread weak_hive_state = W_Pred \<and>
   15 \<le> honey_count weak_hive_state \<and> present_count weak_hive_state < 3 \<and>
   winnie_runs sched_attack = 7 \<and>
   exec sched_attack weak_hive_state
     = Next (weak_hive_state\<lparr>honey_count := 0, hive_thread := H_Lock, winnie_thread := W_Continue\<rparr>) \<and>
   raid_path ! 7 = W_Continue \<and>
   reachable 3 full_hive_state \<and> winnie_thread full_hive_state = W_Pred \<and>
   15 \<le> honey_count full_hive_state \<and> \<not> present_count full_hive_state < 3 \<and>
   exec sched_attack full_hive_state
     = Next (full_hive_state\<lparr>hive_mutex := None, hive_thread := H_Lock, winnie_thread := W_Cure\<rparr>) \<and>
   retreat_path ! 7 = W_Cure"
proof -
  let ?w = "weak_hive_state\<lparr>honey_count := 0, hive_thread := H_Lock, winnie_thread := W_Continue\<rparr>"
  let ?f = "full_hive_state\<lparr>hive_mutex := None, hive_thread := H_Lock, winnie_thread := W_Cure\<rparr>"
  have w: "winnie_thread weak_hive_state = W_Pred \<and> 15 \<le> honey_count weak_hive_state \<and>
      present_count weak_hive_state < 3"
    by code_simp
  have f: "winnie_thread full_hive_state = W_Pred \<and> 15 \<le> honey_count full_hive_state \<and>
      \<not> present_count full_hive_state < 3"
    by code_simp
  have runs: "winnie_runs sched_attack = 7" by code_simp
  have ew: "exec sched_attack weak_hive_state = Next ?w" by code_simp
  have ef: "exec sched_attack full_hive_state = Next ?f" by code_simp
  have nw: "\<not> winnie_stop_signal ?w" by code_simp
  have nf: "\<not> winnie_stop_signal ?f" by code_simp
  have 1: "winnie_thread ?w = raid_path ! winnie_runs sched_attack"
    using raid_threshold [OF reachable_weak_hive_state, of 0 sched_attack ?w] w ew nw runs
    by simp
  have 2: "winnie_thread ?f = retreat_path ! winnie_runs sched_attack"
    using raid_threshold [OF reachable_full_hive_state, of 0 sched_attack ?f] f ef nf runs
    by simp
  have 3: "raid_path ! 7 = W_Continue" using 1 runs by simp
  have 4: "retreat_path ! 7 = W_Cure" using 2 runs by simp
  show ?thesis
    using reachable_weak_hive_state reachable_full_hive_state w f runs ew ef 3 4 by blast
qed

text \<open>
  C5. The queue gets shorter only by the \<^verbatim>\<open>pop()\<close> of \<^verbatim>\<open>ReleaseOne\<close>, run by the hive
  thread; from the moment the size check of \<^verbatim>\<open>Hive::Run\<close> has passed up to that pop the
  queue holds more than one bee, so at least one bee is left after it, and the pop never
  meets an empty queue. The check passes only with more than one bee in the queue or with
  the stop signal set, and then the loop returns. With at least one bee in the colony the
  queue is never empty.
\<close>

theorem anchor_bee_stays:
  assumes "reachable n s"
  shows "(1 \<le> n \<longrightarrow> 1 \<le> present_count s) \<and>
     (hive_ready (hive_thread s) \<longrightarrow> 1 < Size s) \<and>
     (hive_thread s = H_IfStop \<longrightarrow> 1 < Size s \<or> hive_stop_signal s) \<and>
     step a s \<noteq> Undefined \<and>
     (\<forall>s'. step a s = Next s' \<longrightarrow> present_count s' < present_count s \<longrightarrow>
        (\<exists>r. a = Run HiveT r) \<and> hive_thread s = H_RelPop \<and> 1 < Size s \<and> 1 \<le> Size s' \<and>
        present_count s = Suc (present_count s'))"
proof -
  have inv: "pop_inv s" using assms by (rule reachable_pop_inv)
  then have g: "glob_pop s" by (simp add: pop_inv_def)
  have len: "length (all_bees s) = nat n" using assms by (rule reachable_length)
  have ready: "hive_ready (hive_thread s) \<longrightarrow> 1 < Size s"
    and ifstop: "hive_thread s = H_IfStop \<longrightarrow> 1 < Size s \<or> hive_stop_signal s"
    and one: "1 \<le> n \<longrightarrow> 1 \<le> present_count s"
    using g len by (auto simp: glob_pop_def Size_def present_count_def)
  have pop: "(\<exists>r. a = Run HiveT r) \<and> hive_thread s = H_RelPop \<and> 1 < Size s \<and> 1 \<le> Size s' \<and>
      present_count s = Suc (present_count s')"
    if st: "step a s = Next s'" and less: "present_count s' < present_count s" for s'
  proof -
    have *: "(\<exists>r. a = Run HiveT r) \<and> hive_thread s = H_RelPop \<and>
        bees_currently_in_hive s = next_bee s' # bees_currently_in_hive s'"
      using step_queue_shrinks [OF st] less by (simp add: present_count_def)
    then have "1 < Size s" using ready by simp
    then show ?thesis using * by (auto simp: Size_def present_count_def Suc_le_eq)
  qed
  have shrink: "\<forall>s'. step a s = Next s' \<longrightarrow> present_count s' < present_count s \<longrightarrow>
      (\<exists>r. a = Run HiveT r) \<and> hive_thread s = H_RelPop \<and> 1 < Size s \<and> 1 \<le> Size s' \<and>
      present_count s = Suc (present_count s')"
    by (intro allI impI) (rule pop)
  show ?thesis by (intro conjI one ready ifstop step_defined [OF inv] shrink)
qed

theorem anchor_bee_stays_witness:
  "reachable 3 pop_state \<and> (1::int) \<le> 3 \<and> hive_ready (hive_thread pop_state) \<and>
   1 \<le> present_count pop_state \<and> 1 < Size pop_state \<and>
   map_outcome present_count (step (Run HiveT 900) pop_state) = Next 2 \<and>
   present_count pop_state = 3"
proof -
  have "hive_ready (hive_thread pop_state) \<and>
      map_outcome present_count (step (Run HiveT 900) pop_state) = Next 2 \<and>
      present_count pop_state = 3"
    by code_simp
  then show ?thesis
    using anchor_bee_stays [OF reachable_pop_state, of "Run HiveT 900"] reachable_pop_state
    by simp
qed

text \<open>
  C6. \<^verbatim>\<open>ReturnOne\<close> appends the returning bee to the queue, adds one to the honey count
  unless it has reached \<^verbatim>\<open>kMaxHoneyCount\<close> = 30 (29 becomes 30, 30 stays 30, a count of at
  most 30 stays at most 30), and notifies both condition variables: a hive thread parked on
  \<^verbatim>\<open>bee_count_condition_\<close> and a Winnie parked on \<^verbatim>\<open>honey_count_condition_\<close> become
  runnable. The bees themselves are not touched. A bee's steps through \<^verbatim>\<open>ReturnOne\<close>, run
  without interruption with \<^verbatim>\<open>hive_mutex_\<close> free, compute exactly this function.
\<close>

theorem ReturnOne_effect:
  "bees_currently_in_hive (ReturnOne b s) = bees_currently_in_hive s @ [b] \<and>
   all_bees (ReturnOne b s) = all_bees s \<and>
   honey_count (ReturnOne b s) = (if honey_count s < 30 then honey_count s + 1 else honey_count s) \<and>
   (honey_count s = 29 \<longrightarrow> honey_count (ReturnOne b s) = 30) \<and>
   (honey_count s = 30 \<longrightarrow> honey_count (ReturnOne b s) = 30) \<and>
   (honey_count s \<le> 30 \<longrightarrow> honey_count (ReturnOne b s) \<le> 30) \<and>
   hive_thread (ReturnOne b s) = (if hive_thread s = H_Parked then H_Woken else hive_thread s) \<and>
   winnie_thread (ReturnOne b s)
     = (if winnie_thread s = W_Parked then W_Woken else winnie_thread s) \<and>
   (b < length (all_bees s) \<and> bee_thread (all_bees s ! b) = B_RetLock \<and> hive_mutex s = None \<longrightarrow>
      exec (replicate (if honey_count s < kMaxHoneyCount then 7 else 6) (Run (BeeT b) r)) s
        = Next (upd_bee b (\<lambda>x. x\<lparr>bee_thread := B_Unlock\<rparr>) (ReturnOne b s)))"
proof -
  have "bees_currently_in_hive (ReturnOne b s) = bees_currently_in_hive s @ [b] \<and>
      all_bees (ReturnOne b s) = all_bees s \<and>
      honey_count (ReturnOne b s)
        = (if honey_count s < 30 then honey_count s + 1 else honey_count s) \<and>
      (honey_count s = 29 \<longrightarrow> honey_count (ReturnOne b s) = 30) \<and>
      (honey_count s = 30 \<longrightarrow> honey_count (ReturnOne b s) = 30) \<and>
      (honey_count s \<le> 30 \<longrightarrow> honey_count (ReturnOne b s) \<le> 30) \<and>
      hive_thread (ReturnOne b s) = (if hive_thread s = H_Parked then H_Woken else hive_thread s) \<and>
      winnie_thread (ReturnOne b s)
        = (if winnie_thread s = W_Parked then W_Woken else winnie_thread s)"
    by (simp add: ReturnOne_def Let_def push_bee_def incr_honey_def kMaxHoneyCount_def
        notify_bee_count_condition_def notify_honey_count_condition_def)
  then show ?thesis using bee_steps_ReturnOne [of b s r] by blast
qed

theorem ReturnOne_effect_witness:
  "honey_count returning_state = 29 \<and> honey_count (ReturnOne 0 returning_state) = 30 \<and>
   honey_count (ReturnOne 0 (ReturnOne 0 returning_state)) = 30 \<and>
   bees_currently_in_hive (ReturnOne 0 returning_state) = [2, 0] \<and>
   hive_thread returning_state = H_Parked \<and> hive_thread (ReturnOne 0 returning_state) = H_Woken \<and>
   winnie_thread returning_state = W_Parked \<and>
   winnie_thread (ReturnOne 0 returning_state) = W_Woken \<and>
   0 < length (all_bees returning_state) \<and>
   bee_thread (all_bees returning_state ! 0) = B_RetLock \<and> hive_mutex returning_state = None \<and>
   exec (replicate 7 (Run (BeeT 0) 0)) returning_state
     = Next (upd_bee 0 (\<lambda>x. x\<lparr>bee_thread := B_Unlock\<rparr>) (ReturnOne 0 returning_state))"
proof -
  have h: "honey_count returning_state = 29" by code_simp
  have q: "bees_currently_in_hive returning_state = [2]" by code_simp
  have p: "hive_thread returning_state = H_Parked \<and> winnie_thread returning_state = W_Parked"
    by code_simp
  have pc: "0 < length (all_bees returning_state) \<and>
      bee_thread (all_bees returning_state ! 0) = B_RetLock \<and> hive_mutex returning_state = None"
    by code_simp
  have lt: "(honey_count returning_state < kMaxHoneyCount) = True"
    using h by (simp add: kMaxHoneyCount_def)
  note r1 = ReturnOne_effect [of 0 returning_state 0]
  note r2 = ReturnOne_effect [of 0 "ReturnOne 0 returning_state" 0]
  have 1: "honey_count (ReturnOne 0 returning_state) = 30" using r1 h by blast
  have 2: "honey_count (ReturnOne 0 (ReturnOne 0 returning_state)) = 30" using r2 1 by blast
  have 3: "bees_currently_in_hive (ReturnOne 0 returning_state) = [2, 0]" using r1 q by simp
  have 4: "hive_thread (ReturnOne 0 returning_state) = H_Woken \<and>
      winnie_thread (ReturnOne 0 returning_state) = W_Woken"
    using r1 p by simp
  have "exec (replicate (if honey_count returning_state < kMaxHoneyCount then 7 else 6)
          (Run (BeeT 0) 0)) returning_state
      = Next (upd_bee 0 (\<lambda>x. x\<lparr>bee_thread := B_Unlock\<rparr>) (ReturnOne 0 returning_state))"
    using r1 pc by blast
  then have 5: "exec (replicate 7 (Run (BeeT 0) 0)) returning_state
      = Next (upd_bee 0 (\<lambda>x. x\<lparr>bee_thread := B_Unlock\<rparr>) (ReturnOne 0 returning_state))"
    by (simp only: lt if_True)
  show ?thesis using h p pc 1 2 3 4 5 by blast
qed

text \<open>
  C7, as stated, fails: \<^verbatim>\<open>Size()\<close> locks \<^verbatim>\<open>queue_mutex_\<close>, the pushes and pops lock
  \<^verbatim>\<open>hive_mutex_\<close>. In the reachable state \<open>overlap_state\<close> the hive thread is inside
  \<^verbatim>\<open>Size()\<close> (called from the log line of \<^verbatim>\<open>ReleaseOne\<close>, after the lambda has released
  \<^verbatim>\<open>hive_mutex_\<close>) while bee 0 is inside the locked block of \<^verbatim>\<open>ReturnOne\<close>, about to push:
  each holds its own mutex, and both the read and the push can run next.
\<close>

theorem Size_lock_counterexample:
  "reachable 3 overlap_state \<and>
   hive_in_Size (hive_thread overlap_state) \<and> queue_mutex overlap_state = Some HiveT \<and>
   bee_thread (all_bees overlap_state ! 0) = B_RetPush \<and>
   hive_mutex overlap_state = Some (BeeT 0) \<and>
   step (Run HiveT 0) overlap_state \<noteq> Blocked \<and> step (Run (BeeT 0) 0) overlap_state \<noteq> Blocked \<and>
   \<not> Size_serialized overlap_state"
proof -
  have "hive_in_Size (hive_thread overlap_state) \<and> queue_mutex overlap_state = Some HiveT \<and>
      bee_thread (all_bees overlap_state ! 0) = B_RetPush \<and>
      hive_mutex overlap_state = Some (BeeT 0) \<and>
      step (Run HiveT 0) overlap_state \<noteq> Blocked \<and>
      step (Run (BeeT 0) 0) overlap_state \<noteq> Blocked \<and>
      \<not> Size_serialized overlap_state"
    by code_simp
  then show ?thesis using reachable_overlap_state by blast
qed

text \<open>
  C7, amended. In every reachable state, the thread at the \<^verbatim>\<open>pop()\<close> of \<^verbatim>\<open>ReleaseOne\<close> and
  a bee at the \<^verbatim>\<open>push\<close> or the honey increment of \<^verbatim>\<open>ReturnOne\<close> own \<^verbatim>\<open>hive_mutex_\<close>; a
  thread inside \<^verbatim>\<open>Size()\<close> owns \<^verbatim>\<open>queue_mutex_\<close>, another lock; and while Winnie is inside
  \<^verbatim>\<open>TryAttack\<close> she owns \<^verbatim>\<open>hive_mutex_\<close> (taken by \<^verbatim>\<open>Winnie::Run\<close>, the only caller), so
  that no bee is inside the locked block of \<^verbatim>\<open>ReturnOne\<close> and the hive thread is not at
  its \<^verbatim>\<open>pop()\<close>.
\<close>

theorem queue_locking:
  assumes "reachable n s"
  shows "(hive_thread s = H_RelPop \<longrightarrow> hive_mutex s = Some HiveT) \<and>
     (\<forall>i < length (all_bees s).
        bee_cs (bee_thread (all_bees s ! i)) \<longrightarrow> hive_mutex s = Some (BeeT i)) \<and>
     (hive_in_Size (hive_thread s) \<longrightarrow> queue_mutex s = Some HiveT) \<and>
     (winnie_in_Size (winnie_thread s) \<longrightarrow> queue_mutex s = Some WinnieT) \<and>
     (winnie_raiding (winnie_thread s) \<longrightarrow>
        hive_mutex s = Some WinnieT \<and> hive_thread s \<noteq> H_RelPop \<and>
        (\<forall>i < length (all_bees s). \<not> bee_cs (bee_thread (all_bees s ! i))))"
proof -
  have g: "glob_lock s" and b: "\<And>j. j < length (all_bees s) \<Longrightarrow> bee_lock s j"
    using reachable_lock_inv [OF assms] by (auto simp: lock_inv_def)
  have raid: "winnie_cs (winnie_thread s)" if "winnie_raiding (winnie_thread s)"
    using that by (cases "winnie_thread s") simp_all
  have pop: "hive_thread s = H_RelPop \<longrightarrow> hive_mutex s = Some HiveT"
    using g by (auto simp: glob_lock_def)
  have bees: "\<forall>i < length (all_bees s).
      bee_cs (bee_thread (all_bees s ! i)) \<longrightarrow> hive_mutex s = Some (BeeT i)"
    using b by (simp add: bee_lock_def)
  have size: "(hive_in_Size (hive_thread s) \<longrightarrow> queue_mutex s = Some HiveT) \<and>
      (winnie_in_Size (winnie_thread s) \<longrightarrow> queue_mutex s = Some WinnieT)"
    using g by (simp add: glob_lock_def)
  have own: "winnie_raiding (winnie_thread s) \<longrightarrow> hive_mutex s = Some WinnieT"
    using g raid by (auto simp: glob_lock_def)
  show ?thesis using pop bees size own by auto
qed

theorem queue_locking_witness:
  "reachable 3 overlap_state \<and> 0 < length (all_bees overlap_state) \<and>
   bee_cs (bee_thread (all_bees overlap_state ! 0)) \<and> hive_mutex overlap_state = Some (BeeT 0) \<and>
   hive_in_Size (hive_thread overlap_state) \<and> queue_mutex overlap_state = Some HiveT \<and>
   reachable 3 (weak_hive_state\<lparr>winnie_thread := W_TryAttack\<rparr>) \<and>
   winnie_raiding (winnie_thread (weak_hive_state\<lparr>winnie_thread := W_TryAttack\<rparr>)) \<and>
   hive_mutex (weak_hive_state\<lparr>winnie_thread := W_TryAttack\<rparr>) = Some WinnieT"
proof -
  let ?w = "weak_hive_state\<lparr>winnie_thread := W_TryAttack\<rparr>"
  have "exec (replicate 4 (Run WinnieT 0)) weak_hive_state = Next ?w" by code_simp
  with reachable_weak_hive_state have rw: "reachable 3 ?w" by (rule exec_reachable)
  have o: "0 < length (all_bees overlap_state) \<and>
      bee_cs (bee_thread (all_bees overlap_state ! 0)) \<and>
      hive_in_Size (hive_thread overlap_state)"
    by code_simp
  have w: "winnie_raiding (winnie_thread ?w)" by code_simp
  show ?thesis
    using queue_locking [OF reachable_overlap_state] queue_locking [OF rw]
      reachable_overlap_state rw o w by blast
qed

text \<open>
  C8 fails on the code: \<^verbatim>\<open>Winnie::End\<close> sets \<^verbatim>\<open>stop_signal_\<close> and notifies nothing, where
  \<^verbatim>\<open>Hive::End\<close> and \<^verbatim>\<open>Bee::End\<close> notify after setting theirs. With one bee, the schedule
  \<open>sched_stuck\<close> of the program ends in \<open>stuck_state\<close>: \<^verbatim>\<open>App::End\<close> has run, the hive
  thread and the bee have finished, Winnie's stop signal is set and she is parked on
  \<^verbatim>\<open>honey_count_condition_\<close>, \<^verbatim>\<open>main\<close> is blocked joining her, and no thread can take a
  step: nothing but a spurious wake-up would let her run again.
\<close>

theorem Winnie_End_leaves_Winnie_parked:
  "reachable 1 stuck_state \<and>
   map_option (exec sched_stuck) (App_ctor 1) = Some (Next stuck_state) \<and>
   hive_stop_signal stuck_state \<and> hive_thread stuck_state = H_Done \<and>
   bee_thread (all_bees stuck_state ! 0) = B_Done \<and>
   winnie_stop_signal stuck_state \<and> winnie_thread stuck_state = W_Parked \<and>
   main_thread stuck_state = M_JoinWinnie \<and>
   step (Run t r) stuck_state = Blocked"
proof -
  have ex: "map_option (exec sched_stuck) (App_ctor 1) = Some (Next stuck_state)" by code_simp
  have "App_ctor 1 = Some (the (App_ctor 1))" by (simp add: App_ctor_def)
  then have "reachable 1 (the (App_ctor 1))" by (rule reachable_init)
  moreover have "exec sched_stuck (the (App_ctor 1)) = Next stuck_state" by code_simp
  ultimately have r: "reachable 1 stuck_state" by (rule exec_reachable)
  have st: "hive_stop_signal stuck_state \<and> hive_thread stuck_state = H_Done \<and>
      bee_thread (all_bees stuck_state ! 0) = B_Done \<and>
      winnie_stop_signal stuck_state \<and> winnie_thread stuck_state = W_Parked \<and>
      main_thread stuck_state = M_JoinWinnie"
    by code_simp
  have "step (Run t r) stuck_state = Blocked"
  proof (cases t)
    case (BeeT i)
    show ?thesis
    proof (cases "i = 0")
      case True
      with BeeT show ?thesis by (simp add: stuck_state_def bee_step_def)
    next
      case False
      with BeeT show ?thesis by (simp add: stuck_state_def bee_step_def)
    qed
  qed (simp_all add: stuck_state_def main_step_def hive_step_def winnie_step_def)
  then show ?thesis using r ex st by blast
qed

text \<open>
  C9. Each of the three \<^verbatim>\<open>End\<close> functions, run twice, leaves the state it leaves when run
  once; so does \<^verbatim>\<open>App::End\<close>, which runs \<^verbatim>\<open>Hive::End\<close> and then \<^verbatim>\<open>Winnie::End\<close>.
\<close>

theorem End_idempotent:
  "Bee_End i (Bee_End i s) = Bee_End i s \<and>
   Hive_End (Hive_End s) = Hive_End s \<and>
   Winnie_End (Winnie_End s) = Winnie_End s \<and>
   Winnie_End (Hive_End (Winnie_End (Hive_End s))) = Winnie_End (Hive_End s)"
  by (simp add: Bee_End_idem Hive_End_idem) (simp add: Hive_End_eq Winnie_End_def stopped_bee_idem)

theorem End_idempotent_witness:
  "Bee_End 0 (Bee_End 0 returning_state) = Bee_End 0 returning_state \<and>
   Hive_End (Hive_End returning_state) = Hive_End returning_state \<and>
   Winnie_End (Winnie_End returning_state) = Winnie_End returning_state \<and>
   hive_stop_signal (Hive_End returning_state) \<and> hive_thread (Hive_End returning_state) = H_Woken \<and>
   winnie_stop_signal (Winnie_End returning_state)"
proof -
  have "hive_stop_signal (Hive_End returning_state) \<and>
      hive_thread (Hive_End returning_state) = H_Woken \<and>
      winnie_stop_signal (Winnie_End returning_state)"
    by code_simp
  then show ?thesis using End_idempotent [of 0 returning_state] by blast
qed

text \<open>
  C10. \<^verbatim>\<open>TryAttack\<close> changes nothing but the honey count: the state after it is the state
  before with the honey count 0 on success and as it was on failure, so the bees, the queue
  and its size are the same. Whether it succeeds does not depend on the honey count, and a
  success sets the count to 0 from any value \<open>h\<close>. Every step of Winnie inside
  \<^verbatim>\<open>TryAttack\<close> leaves all of the state but \<^verbatim>\<open>queue_mutex_\<close>, the honey count and her
  own control point as it is.
\<close>

theorem TryAttack_frame:
  "snd (TryAttack s) = s\<lparr>honey_count := (if fst (TryAttack s) then 0 else honey_count s)\<rparr> \<and>
   all_bees (snd (TryAttack s)) = all_bees s \<and>
   bees_currently_in_hive (snd (TryAttack s)) = bees_currently_in_hive s \<and>
   Size (snd (TryAttack s)) = Size s \<and>
   fst (TryAttack (s\<lparr>honey_count := h\<rparr>)) = fst (TryAttack s) \<and>
   (fst (TryAttack s) \<longrightarrow> honey_count (snd (TryAttack (s\<lparr>honey_count := h\<rparr>))) = 0) \<and>
   (winnie_raiding (winnie_thread s) \<and> winnie_step s = Next s' \<longrightarrow>
      s' = s\<lparr>queue_mutex := queue_mutex s', honey_count := honey_count s',
             winnie_thread := winnie_thread s'\<rparr>)"
proof -
  have "snd (TryAttack s) = s\<lparr>honey_count := (if fst (TryAttack s) then 0 else honey_count s)\<rparr> \<and>
      all_bees (snd (TryAttack s)) = all_bees s \<and>
      bees_currently_in_hive (snd (TryAttack s)) = bees_currently_in_hive s \<and>
      Size (snd (TryAttack s)) = Size s \<and>
      fst (TryAttack (s\<lparr>honey_count := h\<rparr>)) = fst (TryAttack s) \<and>
      (fst (TryAttack s) \<longrightarrow> honey_count (snd (TryAttack (s\<lparr>honey_count := h\<rparr>))) = 0)"
    by (simp add: TryAttack_def Size_def)
  then show ?thesis using winnie_step_raiding_frame [of s s'] by blast
qed

theorem TryAttack_frame_witness:
  "fst (TryAttack weak_hive_state) \<and>
   honey_count (snd (TryAttack (weak_hive_state\<lparr>honey_count := 7\<rparr>))) = 0 \<and>
   all_bees (snd (TryAttack weak_hive_state)) = all_bees weak_hive_state \<and>
   winnie_raiding (winnie_thread (weak_hive_state\<lparr>winnie_thread := W_TryReset\<rparr>)) \<and>
   winnie_step (weak_hive_state\<lparr>winnie_thread := W_TryReset\<rparr>)
     = Next (weak_hive_state\<lparr>honey_count := 0, winnie_thread := W_Continue\<rparr>) \<and>
   bees_currently_in_hive (weak_hive_state\<lparr>honey_count := 0, winnie_thread := W_Continue\<rparr>)
     = bees_currently_in_hive weak_hive_state"
proof -
  have "fst (TryAttack weak_hive_state) \<and>
      winnie_raiding (winnie_thread (weak_hive_state\<lparr>winnie_thread := W_TryReset\<rparr>)) \<and>
      winnie_step (weak_hive_state\<lparr>winnie_thread := W_TryReset\<rparr>)
        = Next (weak_hive_state\<lparr>honey_count := 0, winnie_thread := W_Continue\<rparr>)"
    by code_simp
  then show ?thesis
    using TryAttack_frame [of weak_hive_state 7 "weak_hive_state\<lparr>winnie_thread := W_TryReset\<rparr>"]
    by simp
qed

end
